theory Spec2Isabelle
  imports Main
begin

section \<open>Data model\<close>

text \<open>
  The two loader scripts \<^verbatim>\<open>load_braintrust.py\<close> and \<^verbatim>\<open>load_langsmith.py\<close> read a file of
  line-delimited JSON records, index them into roots and a parent-to-children dictionary, and
  replay them into a tracing backend.

  Payloads (\<^verbatim>\<open>input\<close>, \<^verbatim>\<open>output\<close>, metadata values) are JSON values. Floating point numbers are
  left out: no code path looks inside a payload.
\<close>

datatype json =
    JNull
  | JBool bool
  | JInt int
  | JStr string
  | JList "json list"
  | JObj "(string \<times> json) list"

text \<open>A metadata dictionary keeps insertion order, as a Python \<^verbatim>\<open>dict\<close> does.\<close>

type_synonym dict = "(string \<times> json) list"

fun dict_get :: "dict \<Rightarrow> string \<Rightarrow> json option" where
  "dict_get [] k = None"
| "dict_get ((k', v) # d) k = (if k' = k then Some v else dict_get d k)"

text \<open>\<^verbatim>\<open>d[k] = v\<close>: overwrite in place when the key exists, append otherwise.\<close>

fun dict_set :: "dict \<Rightarrow> string \<Rightarrow> json \<Rightarrow> dict" where
  "dict_set [] k v = [(k, v)]"
| "dict_set ((k', v') # d) k v = (if k' = k then (k, v) # d else (k', v') # dict_set d k v)"

text \<open>Exceptions the scripts raise or let through.\<close>

datatype error =
    KeyError
  | TypeError
  | ValueError
  | RecursionError
  | FileNotFoundError
  | OSError
  | AuthError

text \<open>
  The \<^verbatim>\<open>span_parents\<close> key of a record: the key may be missing from the dictionary
  (\<open>Absent\<close>), hold JSON \<^verbatim>\<open>null\<close> (\<open>Null\<close>, Python \<^verbatim>\<open>None\<close>), or hold a list of parent span
  ids.
\<close>

datatype parents_field = Absent | Null | Parents "string list"

text \<open>
  One parsed line, a Python \<^verbatim>\<open>Dict[str, Any]\<close>. The keys \<^verbatim>\<open>id\<close>, \<^verbatim>\<open>span_id\<close>, \<^verbatim>\<open>input\<close> and
  \<^verbatim>\<open>output\<close> are required of every record by the input format; \<^verbatim>\<open>span_parents\<close>,
  \<^verbatim>\<open>span_attributes.name\<close> and \<^verbatim>\<open>metadata\<close> are optional there, and reading a missing one
  with a subscript raises \<^verbatim>\<open>KeyError\<close>. \<open>None\<close> in \<open>span_name\<close> and \<open>metadata\<close> stands for the
  missing key.
\<close>

record row =
  row_id :: string
  span_id :: string
  span_parents :: parents_field
  span_name :: "string option"
  row_input :: json
  row_output :: json
  metadata :: "dict option"

definition ROOT_SPAN_NAME :: string where
  "ROOT_SPAN_NAME = ''Chat Pipeline''"

definition ROOT_RUN_NAME :: string where
  "ROOT_RUN_NAME = ''Chat Pipeline''"

definition DEFAULT_MODEL :: string where
  "DEFAULT_MODEL = ''gpt-4o''"

section \<open>Command line\<close>

text \<open>
  The parsed arguments. \<^verbatim>\<open>--limit\<close> and \<^verbatim>\<open>--batch-size\<close> default to \<^verbatim>\<open>None\<close>; Python integers
  are unbounded.
\<close>

record args =
  flatten :: bool
  iterations :: int
  limit :: "int option"
  batch_size :: "int option"

text \<open>
  The three checks after \<^verbatim>\<open>parser.parse_args()\<close>; each failing check calls \<^verbatim>\<open>parser.error\<close>,
  which prints the message and exits with status 2. The result is the message of the first
  failing check.
\<close>

definition validate :: "args \<Rightarrow> string option" where
  "validate a =
     (if iterations a < 1 then Some ''iterations must be at least 1''
      else if (case limit a of None \<Rightarrow> False | Some l \<Rightarrow> l < 1)
        then Some ''limit must be at least 1''
      else if (case batch_size a of None \<Rightarrow> False | Some b \<Rightarrow> b < 1)
        then Some ''batch-size must be at least 1''
      else None)"

section \<open>Record store: reading the JSONL file\<close>

text \<open>
  \<^verbatim>\<open>args.limit and i >= args.limit\<close>: a limit of \<^verbatim>\<open>None\<close> or \<^verbatim>\<open>0\<close> is falsy and never stops the
  loop.
\<close>

definition limit_reached :: "int option \<Rightarrow> nat \<Rightarrow> bool" where
  "limit_reached lim i = (case lim of None \<Rightarrow> False | Some l \<Rightarrow> l \<noteq> 0 \<and> l \<le> int i)"

text \<open>
  What \<^verbatim>\<open>json.loads\<close> returns for a line: a dictionary, taken as a record, or a JSON value
  that is no object (\<^verbatim>\<open>42\<close>, \<^verbatim>\<open>"abc"\<close>, \<^verbatim>\<open>null\<close>, \<^verbatim>\<open>[1, 2]\<close>).
\<close>

datatype non_object = VNull | VBool bool | VInt int | VStr string | VList "json list"

datatype loaded = Record row | Value non_object

text \<open>
  What a call of \<^verbatim>\<open>json.loads\<close> does: it returns, it raises \<^verbatim>\<open>JSONDecodeError\<close>, or it raises
  another exception (\<^verbatim>\<open>ValueError\<close> for an integer literal of more than 4300 digits,
  \<^verbatim>\<open>RecursionError\<close> for brackets nested too deep).
\<close>

datatype loads_outcome = Returns loaded | JSONDecodeError | Raises error

text \<open>
  The loop \<^verbatim>\<open>for i, line in enumerate(f)\<close>, with \<open>json_loads\<close> for \<^verbatim>\<open>json.loads\<close>. The state is
  the list \<^verbatim>\<open>rows\<close> and the list of warnings logged so far, each warning carrying the line
  number \<^verbatim>\<open>i + 1\<close> of its message. The handler in the loop catches \<^verbatim>\<open>JSONDecodeError\<close> only:
  another exception of \<^verbatim>\<open>json.loads\<close> leaves the loop, and the handlers around the loop
  either do not catch it or log and re-raise it. The result is then \<open>Inl\<close> of the exception
  and the warnings logged before it.
\<close>

fun parse_lines ::
  "(string \<Rightarrow> loads_outcome) \<Rightarrow> int option \<Rightarrow> nat \<Rightarrow> string list \<Rightarrow> loaded list \<times> nat list
     \<Rightarrow> error \<times> nat list + loaded list \<times> nat list" where
  "parse_lines json_loads lim i [] (rows, warnings) = Inr (rows, warnings)"
| "parse_lines json_loads lim i (line # rest) (rows, warnings) =
     (if limit_reached lim i then Inr (rows, warnings)
      else (case json_loads line of
              Returns v \<Rightarrow> parse_lines json_loads lim (Suc i) rest (rows @ [v], warnings)
            | JSONDecodeError \<Rightarrow>
                parse_lines json_loads lim (Suc i) rest (rows, warnings @ [i + 1])
            | Raises e \<Rightarrow> Inl (e, warnings)))"

text \<open>
  Opening and reading the file: \<open>Inl e\<close> when \<^verbatim>\<open>open\<close> or the read raises (the handlers log and
  re-raise), \<open>Inr lines\<close> with the lines of the file otherwise.
\<close>

definition load_rows ::
  "(string \<Rightarrow> loads_outcome) \<Rightarrow> int option \<Rightarrow> error + string list
     \<Rightarrow> error \<times> nat list + loaded list \<times> nat list" where
  "load_rows json_loads lim file =
     (case file of
        Inl e \<Rightarrow> Inl (e, [])
      | Inr lines \<Rightarrow> parse_lines json_loads lim 0 lines ([], []))"

text \<open>
  The loop \<^verbatim>\<open>for row in rows: tree[row["id"]] = row\<close> as far as it can fail: the subscript
  \<^verbatim>\<open>row["id"]\<close> raises \<^verbatim>\<open>TypeError\<close> on a value that is no dictionary. When it does not, all of
  \<^verbatim>\<open>rows\<close> are records.
\<close>

fun tree_rows :: "loaded list \<Rightarrow> error + row list" where
  "tree_rows [] = Inr []"
| "tree_rows (Record r # rest) =
     (case tree_rows rest of Inl e \<Rightarrow> Inl e | Inr rs \<Rightarrow> Inr (r # rs))"
| "tree_rows (Value v # rest) = Inl TypeError"

section \<open>Tree indexer\<close>

text \<open>
  \<^verbatim>\<open>tree\<close> maps a record id to its record, \<^verbatim>\<open>children\<close> maps a parent span id to the ids of
  the records that name it as a parent.
\<close>

type_synonym tree = "string \<rightharpoonup> row"

type_synonym children = "string \<rightharpoonup> string list"

text \<open>\<^verbatim>\<open>for row in rows: tree[row["id"]] = row\<close>; a later record with the same id overwrites.\<close>

definition build_tree :: "row list \<Rightarrow> tree" where
  "build_tree rows = fold (\<lambda>r t. t(row_id r \<mapsto> r)) rows Map.empty"

text \<open>\<^verbatim>\<open>children.get(k, [])\<close>\<close>

definition children_get :: "children \<Rightarrow> string \<Rightarrow> string list" where
  "children_get ch k = (case ch k of None \<Rightarrow> [] | Some cs \<Rightarrow> cs)"

text \<open>
  The body of \<^verbatim>\<open>for parent in row["span_parents"]\<close>: create the empty list on first sight of
  the parent, then append the record id.
\<close>

definition add_child :: "string \<Rightarrow> string \<Rightarrow> children \<Rightarrow> children" where
  "add_child rid parent ch =
     (let ch' = (if ch parent = None then ch(parent \<mapsto> []) else ch)
      in ch'(parent \<mapsto> children_get ch' parent @ [rid]))"

text \<open>
  The else branch of the indexing loop in \<^verbatim>\<open>load_braintrust.py\<close>:
  \<^verbatim>\<open>del row["span_parents"]\<close>, which raises \<^verbatim>\<open>KeyError\<close> when the key is missing, then
  \<^verbatim>\<open>roots.append(row["id"])\<close>. The state is \<^verbatim>\<open>children\<close> and \<^verbatim>\<open>roots\<close>; the record comes back
  as mutated.
\<close>

definition make_root_bt ::
  "row \<Rightarrow> children \<times> string list \<Rightarrow> error + row \<times> children \<times> string list" where
  "make_root_bt r st =
     (case st of (ch, roots) \<Rightarrow>
        if span_parents r = Absent then Inl KeyError
        else Inr (r\<lparr>span_parents := Absent\<rparr>, ch, roots @ [row_id r]))"

text \<open>
  The else branch in \<^verbatim>\<open>load_langsmith.py\<close>, where the deletion is guarded by
  \<^verbatim>\<open>if "span_parents" in row\<close>.
\<close>

definition make_root_ls ::
  "row \<Rightarrow> children \<times> string list \<Rightarrow> error + row \<times> children \<times> string list" where
  "make_root_ls r st =
     (case st of (ch, roots) \<Rightarrow>
        Inr (if span_parents r \<noteq> Absent then r\<lparr>span_parents := Absent\<rparr> else r,
             ch, roots @ [row_id r]))"

text \<open>
  One turn of the indexing loop, the same in both scripts but for the else branch
  (\<open>make_root\<close>). The condition is
  \<^verbatim>\<open>not args.flatten and row["span_parents"] and len(row["span_parents"]) > 0\<close>: \<^verbatim>\<open>and\<close>
  short-circuits, so with \<^verbatim>\<open>--flatten\<close> the key is not read; without it the subscript raises
  \<^verbatim>\<open>KeyError\<close> on a missing key; \<^verbatim>\<open>None\<close> and the empty list are falsy.
\<close>

definition index_row ::
  "(row \<Rightarrow> children \<times> string list \<Rightarrow> error + row \<times> children \<times> string list)
     \<Rightarrow> bool \<Rightarrow> row \<Rightarrow> children \<times> string list \<Rightarrow> error + row \<times> children \<times> string list" where
  "index_row make_root flat r st =
     (if flat then make_root r st
      else (case span_parents r of
              Absent \<Rightarrow> Inl KeyError
            | Null \<Rightarrow> make_root r st
            | Parents ps \<Rightarrow>
                if ps \<noteq> [] \<and> 0 < length ps
                then Inr (r, fold (add_child (row_id r)) ps (fst st), snd st)
                else make_root r st))"

text \<open>
  The loop \<^verbatim>\<open>for row in rows\<close>, for either script (\<open>step\<close> is its turn). An exception leaves
  the loop and the program; otherwise the result is the records as mutated, \<^verbatim>\<open>children\<close> and
  \<^verbatim>\<open>roots\<close>.
\<close>

fun index_loop ::
  "(row \<Rightarrow> children \<times> string list \<Rightarrow> error + row \<times> children \<times> string list)
     \<Rightarrow> row list \<Rightarrow> children \<times> string list \<Rightarrow> error + row list \<times> children \<times> string list" where
  "index_loop step [] st = Inr ([], st)"
| "index_loop step (r # rs) st =
     (case step r st of
        Inl e \<Rightarrow> Inl e
      | Inr (r', st') \<Rightarrow>
          (case index_loop step rs st' of
             Inl e \<Rightarrow> Inl e
           | Inr (rs', st'') \<Rightarrow> Inr (r' # rs', st'')))"

definition index_bt :: "bool \<Rightarrow> row list \<Rightarrow> error + row list \<times> children \<times> string list" where
  "index_bt flat rows = index_loop (index_row make_root_bt flat) rows (Map.empty, [])"

definition index_ls :: "bool \<Rightarrow> row list \<Rightarrow> error + row list \<times> children \<times> string list" where
  "index_ls flat rows = index_loop (index_row make_root_ls flat) rows (Map.empty, [])"

section \<open>Replay engine\<close>

text \<open>
  What the scripts send to the backend and log, in order. A unit of work is opened
  (\<^verbatim>\<open>start_span\<close>, \<^verbatim>\<open>RunTree(...)\<close>, \<^verbatim>\<open>create_child\<close>), gets its payload attached (\<^verbatim>\<open>span.log\<close>,
  or the \<^verbatim>\<open>inputs\<close>/\<^verbatim>\<open>outputs\<close>/\<^verbatim>\<open>metadata\<close> arguments of the LangSmith constructors), and is
  closed (the end of the \<^verbatim>\<open>with\<close> block, or \<^verbatim>\<open>end()\<close> and \<^verbatim>\<open>post()\<close>). The backend sees the unit
  name only; events also carry the id of the record they are emitted for, and \<open>OpenChild\<close>
  the id of the record whose unit is the \<^verbatim>\<open>parent\<close> argument. \<open>IterationDone k\<close> is the log
  line \<^verbatim>\<open>Iteration k/n completed\<close>.
\<close>

datatype event =
    OpenRoot string string
  | OpenChild string string string
  | Attach string json json "dict option"
  | CloseChild string
  | CloseRoot string
  | Flush
  | IterationDone nat

text \<open>
  \<^verbatim>\<open>log_child_span\<close> of \<^verbatim>\<open>load_braintrust.py\<close>, with the loop over the child ids as
  \<open>log_child_spans\<close>. The recursion follows \<^verbatim>\<open>children\<close> and has no bound of its own, so the
  first argument bounds the depth of the calls: \<open>None\<close> means the bound was too small.
  (CPython has such a bound, the recursion limit, and raises \<^verbatim>\<open>RecursionError\<close> there.)
  \<open>Some (Inr evs)\<close> is a return, with the events emitted; \<open>Some (Inl (e, evs))\<close> is the
  exception \<open>e\<close>, with the events emitted before it left. The name of the child is read
  before the span is opened; once the \<^verbatim>\<open>with\<close> block is entered, its end closes the span
  also when an exception leaves it.
\<close>

fun log_child_span ::
  "nat \<Rightarrow> string \<Rightarrow> string \<Rightarrow> children \<Rightarrow> tree \<Rightarrow> (error \<times> event list + event list) option"
and log_child_spans ::
  "nat \<Rightarrow> string \<Rightarrow> string list \<Rightarrow> children \<Rightarrow> tree
     \<Rightarrow> (error \<times> event list + event list) option" where
  "log_child_span 0 parent node_id ch tr = None"
| "log_child_span (Suc n) parent node_id ch tr =
     (case tr node_id of
        None \<Rightarrow> Some (Inl (KeyError, []))
      | Some child_row \<Rightarrow>
          (case span_name child_row of
             None \<Rightarrow> Some (Inl (KeyError, []))
           | Some nm \<Rightarrow>
               (case log_child_spans n node_id (children_get ch (span_id child_row)) ch tr of
                  None \<Rightarrow> None
                | Some (Inl (e, evs)) \<Rightarrow>
                    Some (Inl (e, OpenChild parent node_id nm
                                  # Attach node_id (row_input child_row) (row_output child_row) None
                                  # evs @ [CloseChild node_id]))
                | Some (Inr evs) \<Rightarrow>
                    Some (Inr (OpenChild parent node_id nm
                               # Attach node_id (row_input child_row) (row_output child_row) None
                               # evs @ [CloseChild node_id])))))"
| "log_child_spans n parent [] ch tr = Some (Inr [])"
| "log_child_spans n parent (child_id # rest) ch tr =
     (case log_child_span n parent child_id ch tr of
        None \<Rightarrow> None
      | Some (Inl x) \<Rightarrow> Some (Inl x)
      | Some (Inr evs) \<Rightarrow>
          (case log_child_spans n parent rest ch tr of
             None \<Rightarrow> None
           | Some (Inl (e, evs')) \<Rightarrow> Some (Inl (e, evs @ evs'))
           | Some (Inr evs') \<Rightarrow> Some (Inr (evs @ evs'))))"

text \<open>
  \<^verbatim>\<open>log_child_run\<close> of \<^verbatim>\<open>load_langsmith.py\<close>: \<^verbatim>\<open>create_child\<close> opens the child run with its
  inputs and outputs, \<^verbatim>\<open>end()\<close> and \<^verbatim>\<open>post()\<close> close it after the children. An exception in
  the children skips \<^verbatim>\<open>end()\<close> and \<^verbatim>\<open>post()\<close>: the run stays open.
\<close>

fun log_child_run ::
  "nat \<Rightarrow> string \<Rightarrow> string \<Rightarrow> children \<Rightarrow> tree \<Rightarrow> (error \<times> event list + event list) option"
and log_child_runs ::
  "nat \<Rightarrow> string \<Rightarrow> string list \<Rightarrow> children \<Rightarrow> tree
     \<Rightarrow> (error \<times> event list + event list) option" where
  "log_child_run 0 parent node_id ch tr = None"
| "log_child_run (Suc n) parent node_id ch tr =
     (case tr node_id of
        None \<Rightarrow> Some (Inl (KeyError, []))
      | Some child_row \<Rightarrow>
          (case span_name child_row of
             None \<Rightarrow> Some (Inl (KeyError, []))
           | Some nm \<Rightarrow>
               (case log_child_runs n node_id (children_get ch (span_id child_row)) ch tr of
                  None \<Rightarrow> None
                | Some (Inl (e, evs)) \<Rightarrow>
                    Some (Inl (e, OpenChild parent node_id nm
                                  # Attach node_id (row_input child_row) (row_output child_row) None
                                  # evs))
                | Some (Inr evs) \<Rightarrow>
                    Some (Inr (OpenChild parent node_id nm
                               # Attach node_id (row_input child_row) (row_output child_row) None
                               # evs @ [CloseChild node_id])))))"
| "log_child_runs n parent [] ch tr = Some (Inr [])"
| "log_child_runs n parent (child_id # rest) ch tr =
     (case log_child_run n parent child_id ch tr of
        None \<Rightarrow> None
      | Some (Inl x) \<Rightarrow> Some (Inl x)
      | Some (Inr evs) \<Rightarrow>
          (case log_child_runs n parent rest ch tr of
             None \<Rightarrow> None
           | Some (Inl (e, evs')) \<Rightarrow> Some (Inl (e, evs @ evs'))
           | Some (Inr evs') \<Rightarrow> Some (Inr (evs @ evs'))))"

text \<open>
  One root in \<^verbatim>\<open>load_braintrust.py\<close>: \<^verbatim>\<open>row = tree[root]\<close>, the \<^verbatim>\<open>with\<close> block that opens the
  root span, \<^verbatim>\<open>row["metadata"]["model"] = DEFAULT_MODEL\<close> (the record in \<^verbatim>\<open>tree\<close> is mutated),
  \<^verbatim>\<open>span.log\<close>, the children, and the end of the block, which closes the span also when an
  exception leaves the block. A return carries \<^verbatim>\<open>tree\<close> as the mutation leaves it.
\<close>

definition replay_root_bt ::
  "nat \<Rightarrow> children \<Rightarrow> tree \<Rightarrow> string \<Rightarrow> (error \<times> event list + event list \<times> tree) option" where
  "replay_root_bt fuel ch tr root =
     (case tr root of
        None \<Rightarrow> Some (Inl (KeyError, []))
      | Some row \<Rightarrow>
          (case metadata row of
             None \<Rightarrow> Some (Inl (KeyError, [OpenRoot root ROOT_SPAN_NAME, CloseRoot root]))
           | Some md \<Rightarrow>
               (let md' = dict_set md ''model'' (JStr DEFAULT_MODEL);
                    tr' = tr(root \<mapsto> row\<lparr>metadata := Some md'\<rparr>)
                in (case log_child_spans fuel root (children_get ch (span_id row)) ch tr' of
                      None \<Rightarrow> None
                    | Some (Inl (e, evs)) \<Rightarrow>
                        Some (Inl (e, OpenRoot root ROOT_SPAN_NAME
                                      # Attach root (row_input row) (row_output row) (Some md')
                                      # evs @ [CloseRoot root]))
                    | Some (Inr evs) \<Rightarrow>
                        Some (Inr (OpenRoot root ROOT_SPAN_NAME
                                   # Attach root (row_input row) (row_output row) (Some md')
                                   # evs @ [CloseRoot root], tr'))))))"

text \<open>
  One root in \<^verbatim>\<open>load_langsmith.py\<close>: the \<^verbatim>\<open>RunTree\<close> is built from \<^verbatim>\<open>row["input"]\<close>,
  \<^verbatim>\<open>row["output"]\<close> and \<^verbatim>\<open>row["metadata"]\<close> as they are (a missing key raises before the run
  exists); nothing is written to the record. An exception in the children skips \<^verbatim>\<open>end()\<close> and
  \<^verbatim>\<open>post()\<close>.
\<close>

definition replay_root_ls ::
  "nat \<Rightarrow> children \<Rightarrow> tree \<Rightarrow> string \<Rightarrow> (error \<times> event list + event list) option" where
  "replay_root_ls fuel ch tr root =
     (case tr root of
        None \<Rightarrow> Some (Inl (KeyError, []))
      | Some row \<Rightarrow>
          (case metadata row of
             None \<Rightarrow> Some (Inl (KeyError, []))
           | Some md \<Rightarrow>
               (case log_child_runs fuel root (children_get ch (span_id row)) ch tr of
                  None \<Rightarrow> None
                | Some (Inl (e, evs)) \<Rightarrow>
                    Some (Inl (e, OpenRoot root ROOT_RUN_NAME
                                  # Attach root (row_input row) (row_output row) (Some md)
                                  # evs))
                | Some (Inr evs) \<Rightarrow>
                    Some (Inr (OpenRoot root ROOT_RUN_NAME
                               # Attach root (row_input row) (row_output row) (Some md)
                               # evs @ [CloseRoot root])))))"

text \<open>
  The flush governor, \<^verbatim>\<open>args.batch_size and (idx + 1) % args.batch_size == 0\<close>, as the events
  it adds after root number \<open>idx\<close> (counted from 0 by \<^verbatim>\<open>enumerate\<close>).
\<close>

definition flush_due :: "int option \<Rightarrow> nat \<Rightarrow> bool" where
  "flush_due bs idx = (case bs of None \<Rightarrow> False | Some b \<Rightarrow> b \<noteq> 0 \<and> (int idx + 1) mod b = 0)"

definition batch_flush :: "int option \<Rightarrow> nat \<Rightarrow> event list" where
  "batch_flush bs idx = (if flush_due bs idx then [Flush] else [])"

text \<open>
  The loop \<^verbatim>\<open>for idx, root in enumerate(roots)\<close> of \<^verbatim>\<open>load_braintrust.py\<close>. An exception
  ends it, after the events of the roots before and of the root that raised.
\<close>

fun replay_roots_bt ::
  "nat \<Rightarrow> int option \<Rightarrow> children \<Rightarrow> nat \<Rightarrow> string list \<Rightarrow> tree
     \<Rightarrow> (error \<times> event list + event list \<times> tree) option" where
  "replay_roots_bt fuel bs ch idx [] tr = Some (Inr ([], tr))"
| "replay_roots_bt fuel bs ch idx (root # rest) tr =
     (case replay_root_bt fuel ch tr root of
        None \<Rightarrow> None
      | Some (Inl x) \<Rightarrow> Some (Inl x)
      | Some (Inr (evs, tr')) \<Rightarrow>
          (case replay_roots_bt fuel bs ch (Suc idx) rest tr' of
             None \<Rightarrow> None
           | Some (Inl (e, evs')) \<Rightarrow> Some (Inl (e, evs @ batch_flush bs idx @ evs'))
           | Some (Inr (evs', tr'')) \<Rightarrow> Some (Inr (evs @ batch_flush bs idx @ evs', tr''))))"

text \<open>The same loop of \<^verbatim>\<open>load_langsmith.py\<close>.\<close>

fun replay_roots_ls ::
  "nat \<Rightarrow> int option \<Rightarrow> children \<Rightarrow> tree \<Rightarrow> nat \<Rightarrow> string list
     \<Rightarrow> (error \<times> event list + event list) option" where
  "replay_roots_ls fuel bs ch tr idx [] = Some (Inr [])"
| "replay_roots_ls fuel bs ch tr idx (root # rest) =
     (case replay_root_ls fuel ch tr root of
        None \<Rightarrow> None
      | Some (Inl x) \<Rightarrow> Some (Inl x)
      | Some (Inr evs) \<Rightarrow>
          (case replay_roots_ls fuel bs ch tr (Suc idx) rest of
             None \<Rightarrow> None
           | Some (Inl (e, evs')) \<Rightarrow> Some (Inl (e, evs @ batch_flush bs idx @ evs'))
           | Some (Inr evs') \<Rightarrow> Some (Inr (evs @ batch_flush bs idx @ evs'))))"

text \<open>
  The loop \<^verbatim>\<open>for i in range(args.iterations)\<close> of \<^verbatim>\<open>load_braintrust.py\<close>, from iteration \<open>i\<close>
  with \<open>k\<close> iterations left: the roots, then the log line. There is no flush in the body of
  this loop.
\<close>

fun iterations_bt ::
  "nat \<Rightarrow> int option \<Rightarrow> children \<Rightarrow> string list \<Rightarrow> nat \<Rightarrow> nat \<Rightarrow> tree
     \<Rightarrow> (error \<times> event list + event list \<times> tree) option" where
  "iterations_bt fuel bs ch roots i 0 tr = Some (Inr ([], tr))"
| "iterations_bt fuel bs ch roots i (Suc k) tr =
     (case replay_roots_bt fuel bs ch 0 roots tr of
        None \<Rightarrow> None
      | Some (Inl x) \<Rightarrow> Some (Inl x)
      | Some (Inr (evs, tr')) \<Rightarrow>
          (case iterations_bt fuel bs ch roots (Suc i) k tr' of
             None \<Rightarrow> None
           | Some (Inl (e, evs')) \<Rightarrow> Some (Inl (e, evs @ [IterationDone (i + 1)] @ evs'))
           | Some (Inr (evs', tr'')) \<Rightarrow>
               Some (Inr (evs @ [IterationDone (i + 1)] @ evs', tr''))))"

text \<open>
  The replay of \<^verbatim>\<open>load_braintrust.py\<close>: the iterations, then \<^verbatim>\<open>bt_logger.flush()\<close> after the
  loop (\<^verbatim>\<open># Ensure all logs are sent before exiting\<close>), which an exception does not reach.
\<close>

definition replay_bt ::
  "nat \<Rightarrow> args \<Rightarrow> children \<Rightarrow> string list \<Rightarrow> tree
     \<Rightarrow> (error \<times> event list + event list \<times> tree) option" where
  "replay_bt fuel a ch roots tr =
     (case iterations_bt fuel (batch_size a) ch roots 0 (nat (iterations a)) tr of
        None \<Rightarrow> None
      | Some (Inl x) \<Rightarrow> Some (Inl x)
      | Some (Inr (evs, tr')) \<Rightarrow> Some (Inr (evs @ [Flush], tr')))"

text \<open>
  The loop \<^verbatim>\<open>for iteration in range(args.iterations)\<close> of \<^verbatim>\<open>load_langsmith.py\<close>: the roots,
  \<^verbatim>\<open>client.flush()\<close> (\<^verbatim>\<open># Flush once at the end of iteration\<close>), then the log line.
\<close>

fun iterations_ls ::
  "nat \<Rightarrow> int option \<Rightarrow> children \<Rightarrow> tree \<Rightarrow> string list \<Rightarrow> nat \<Rightarrow> nat
     \<Rightarrow> (error \<times> event list + event list) option" where
  "iterations_ls fuel bs ch tr roots i 0 = Some (Inr [])"
| "iterations_ls fuel bs ch tr roots i (Suc k) =
     (case replay_roots_ls fuel bs ch tr 0 roots of
        None \<Rightarrow> None
      | Some (Inl x) \<Rightarrow> Some (Inl x)
      | Some (Inr evs) \<Rightarrow>
          (case iterations_ls fuel bs ch tr roots (Suc i) k of
             None \<Rightarrow> None
           | Some (Inl (e, evs')) \<Rightarrow>
               Some (Inl (e, evs @ [Flush, IterationDone (i + 1)] @ evs'))
           | Some (Inr evs') \<Rightarrow> Some (Inr (evs @ [Flush, IterationDone (i + 1)] @ evs'))))"

definition replay_ls ::
  "nat \<Rightarrow> args \<Rightarrow> children \<Rightarrow> tree \<Rightarrow> string list
     \<Rightarrow> (error \<times> event list + event list) option" where
  "replay_ls fuel a ch tr roots =
     iterations_ls fuel (batch_size a) ch tr roots 0 (nat (iterations a))"

section \<open>The scripts\<close>

text \<open>
  What a run finds outside the program: whether \<^verbatim>\<open>data/big_traces.jsonl\<close> exists, what opening
  and reading it gives, what \<^verbatim>\<open>json.loads\<close> does on a line, and whether
  \<^verbatim>\<open>braintrust.login()\<close> raises.
\<close>

record env =
  trace_file_exists :: bool
  trace_file :: "error + string list"
  json_loads :: "string \<Rightarrow> loads_outcome"
  login_error :: "error option"

text \<open>
  What a run does to the outside, in order: \<^verbatim>\<open>load_dotenv()\<close> (reads \<^verbatim>\<open>.env\<close>),
  \<^verbatim>\<open>os.path.exists(TRACE_FILE)\<close>, \<^verbatim>\<open>braintrust.login()\<close>, the \<^verbatim>\<open>open\<close> and read of the trace
  file, a warning for a skipped line, the creation of the backend logger or client, and the
  events of the replay.
\<close>

datatype action =
    LoadDotenv
  | PathExists
  | Login
  | ReadTraceFile
  | Warning nat
  | InitSink
  | Emit event

text \<open>How a run ends: an exit status, an exception left uncaught, or the end of the script.\<close>

datatype outcome = Exit int | Raised error | Completed

text \<open>
  The start of both scripts, up to the end of the argument checks: the actions done, and the
  exit taken if any. \<^verbatim>\<open>sys.exit(1)\<close> answers a missing trace file; \<^verbatim>\<open>parser.error\<close> exits
  with status 2.
\<close>

definition startup :: "env \<Rightarrow> args \<Rightarrow> action list \<times> outcome option" where
  "startup e a =
     (if \<not> trace_file_exists e then ([LoadDotenv, PathExists], Some (Exit 1))
      else if validate a \<noteq> None then ([LoadDotenv, PathExists], Some (Exit 2))
      else ([LoadDotenv, PathExists], None))"

text \<open>
  \<^verbatim>\<open>load_braintrust.py\<close> from top to bottom. The loop that fills \<^verbatim>\<open>tree\<close> runs before the
  indexing loop (\<open>tree_rows\<close> is its possible failure) and stores the same record objects the
  indexing loop mutates, so the dictionary is built here from the records as that loop leaves
  them. A run that raises has done everything up to the exception: the warnings logged and
  the events sent before it are part of the result.
\<close>

definition main_bt :: "nat \<Rightarrow> env \<Rightarrow> args \<Rightarrow> (action list \<times> outcome) option" where
  "main_bt fuel e a =
     (case startup e a of
        (acts, Some out) \<Rightarrow> Some (acts, out)
      | (acts, None) \<Rightarrow>
          (case login_error e of
             Some err \<Rightarrow> Some (acts @ [Login], Raised err)
           | None \<Rightarrow>
               (case load_rows (json_loads e) (limit a) (trace_file e) of
                  Inl (err, warnings) \<Rightarrow>
                    Some (acts @ [Login, ReadTraceFile] @ map Warning warnings, Raised err)
                | Inr (loaded, warnings) \<Rightarrow>
                    (let acts' = acts @ [Login, ReadTraceFile] @ map Warning warnings
                     in (case tree_rows loaded of
                           Inl err \<Rightarrow> Some (acts', Raised err)
                         | Inr rows \<Rightarrow>
                             (case index_bt (flatten a) rows of
                                Inl err \<Rightarrow> Some (acts', Raised err)
                              | Inr (rows', ch, roots) \<Rightarrow>
                                  (case replay_bt fuel a ch roots (build_tree rows') of
                                     None \<Rightarrow> None
                                   | Some (Inl (err, evs)) \<Rightarrow>
                                       Some (acts' @ [InitSink] @ map Emit evs, Raised err)
                                   | Some (Inr (evs, tr')) \<Rightarrow>
                                       Some (acts' @ [InitSink] @ map Emit evs, Completed))))))))"

text \<open>\<^verbatim>\<open>load_langsmith.py\<close> from top to bottom; there is no login step.\<close>

definition main_ls :: "nat \<Rightarrow> env \<Rightarrow> args \<Rightarrow> (action list \<times> outcome) option" where
  "main_ls fuel e a =
     (case startup e a of
        (acts, Some out) \<Rightarrow> Some (acts, out)
      | (acts, None) \<Rightarrow>
          (case load_rows (json_loads e) (limit a) (trace_file e) of
             Inl (err, warnings) \<Rightarrow>
               Some (acts @ [ReadTraceFile] @ map Warning warnings, Raised err)
           | Inr (loaded, warnings) \<Rightarrow>
               (let acts' = acts @ [ReadTraceFile] @ map Warning warnings
                in (case tree_rows loaded of
                      Inl err \<Rightarrow> Some (acts', Raised err)
                    | Inr rows \<Rightarrow>
                        (case index_ls (flatten a) rows of
                           Inl err \<Rightarrow> Some (acts', Raised err)
                         | Inr (rows', ch, roots) \<Rightarrow>
                             (case replay_ls fuel a ch (build_tree rows') roots of
                                None \<Rightarrow> None
                              | Some (Inl (err, evs)) \<Rightarrow>
                                  Some (acts' @ [InitSink] @ map Emit evs, Raised err)
                              | Some (Inr evs) \<Rightarrow>
                                  Some (acts' @ [InitSink] @ map Emit evs, Completed)))))))"

section \<open>Vocabulary of the properties\<close>

text \<open>The value a call of \<^verbatim>\<open>json.loads\<close> returned, if it returned.\<close>

definition returned :: "loads_outcome \<Rightarrow> loaded option" where
  "returned out = (case out of Returns v \<Rightarrow> Some v | _ \<Rightarrow> None)"

text \<open>The call raised an exception that is not \<^verbatim>\<open>JSONDecodeError\<close>.\<close>

definition raises :: "loads_outcome \<Rightarrow> bool" where
  "raises out = (case out of Raises e \<Rightarrow> True | _ \<Rightarrow> False)"

text \<open>The call returned a dictionary.\<close>

definition is_record :: "loads_outcome \<Rightarrow> bool" where
  "is_record out = (case out of Returns (Record r) \<Rightarrow> True | _ \<Rightarrow> False)"

text \<open>
  The line numbers of the warnings that the lines \<open>ls\<close> give, the first of them being line
  \<open>i + 1\<close> of the file.
\<close>

definition warnings_of :: "(string \<Rightarrow> loads_outcome) \<Rightarrow> nat \<Rightarrow> string list \<Rightarrow> nat list" where
  "warnings_of jl i ls =
     map (\<lambda>k. i + k + 1) (filter (\<lambda>k. jl (ls ! k) = JSONDecodeError) [0..<length ls])"

text \<open>The lines the loop reaches under a limit.\<close>

definition within_limit :: "int option \<Rightarrow> string list \<Rightarrow> string list" where
  "within_limit lim lines =
     (case lim of None \<Rightarrow> lines | Some L \<Rightarrow> if L = 0 then lines else take (nat L) lines)"

text \<open>The parents a record declares: none when the key is missing, \<^verbatim>\<open>null\<close> or empty.\<close>

definition parents_of :: "row \<Rightarrow> string list" where
  "parents_of r = (case span_parents r of Parents ps \<Rightarrow> ps | _ \<Rightarrow> [])"

text \<open>
  The ids that the records register under the parent \<open>p\<close>, in input order: each record once
  for each time it names \<open>p\<close>.
\<close>

definition registered :: "row list \<Rightarrow> string \<Rightarrow> string list" where
  "registered rows p =
     concat (map (\<lambda>r. map (\<lambda>_. row_id r) (filter (\<lambda>q. q = p) (parents_of r))) rows)"

section \<open>Example data\<close>

text \<open>Records, a toy \<^verbatim>\<open>json.loads\<close> and argument sets on which the results below are run.\<close>

definition mk_row :: "string \<Rightarrow> string \<Rightarrow> parents_field \<Rightarrow> row" where
  "mk_row i s ps =
     \<lparr>row_id = i, span_id = s, span_parents = ps, span_name = Some i,
      row_input = JNull, row_output = JNull, metadata = Some []\<rparr>"

text \<open>A line holding an integer literal of 4301 digits.\<close>

definition huge_line :: string where
  "huge_line = replicate 4301 (CHR ''9'')"

definition loads_example :: "string \<Rightarrow> loads_outcome" where
  "loads_example line =
     (if line = ''A'' then Returns (Record (mk_row ''A'' ''a'' Null))
      else if line = ''B'' then Returns (Record (mk_row ''B'' ''b'' (Parents [''a''])))
      else if line = ''C'' then Returns (Record (mk_row ''C'' ''c'' (Parents [''b''])))
      else if line = ''X'' then Returns (Record (mk_row ''X'' ''x'' Absent))
      else if line = ''Q''
        then Returns (Record ((mk_row ''Q'' ''q'' (Parents [''a'']))\<lparr>span_name := None\<rparr>))
      else if line = ''M'' then Returns (Record ((mk_row ''M'' ''m'' Null)\<lparr>metadata := None\<rparr>))
      else if line = ''42'' then Returns (Value (VInt 42))
      else if line = huge_line then Raises ValueError
      else JSONDecodeError)"

definition chain_rows :: "row list" where
  "chain_rows =
     [mk_row ''A'' ''a'' Null, mk_row ''B'' ''b'' (Parents [''a'']),
      mk_row ''C'' ''c'' (Parents [''b''])]"


definition args_unlimited :: args where
  "args_unlimited = \<lparr>flatten = False, iterations = 1, limit = None, batch_size = None\<rparr>"

definition env_example :: env where
  "env_example =
     \<lparr>trace_file_exists = True, trace_file = Inr [''A'', ''B'', ''C''],
      json_loads = loads_example, login_error = None\<rparr>"

definition env_missing :: env where
  "env_missing =
     \<lparr>trace_file_exists = False, trace_file = Inl FileNotFoundError,
      json_loads = loads_example, login_error = None\<rparr>"

text \<open>A trace file whose only record has no \<^verbatim>\<open>span_parents\<close> key, and a run with \<^verbatim>\<open>--flatten\<close>.\<close>

definition env_absent :: env where
  "env_absent =
     \<lparr>trace_file_exists = True, trace_file = Inr [''X''],
      json_loads = loads_example, login_error = None\<rparr>"

definition args_flat :: args where
  "args_flat = \<lparr>flatten = True, iterations = 1, limit = None, batch_size = None\<rparr>"

text \<open>
  Trace files with a record followed by a line that holds \<^verbatim>\<open>42\<close>, and by a line that holds
  the long integer.
\<close>

definition env_value :: env where
  "env_value =
     \<lparr>trace_file_exists = True, trace_file = Inr [''A'', ''42''],
      json_loads = loads_example, login_error = None\<rparr>"

definition env_huge :: env where
  "env_huge =
     \<lparr>trace_file_exists = True, trace_file = Inr [''{'', huge_line, ''A''],
      json_loads = loads_example, login_error = None\<rparr>"

text \<open>
  Trace files on which the replay raises: a root followed by a child that has no
  \<^verbatim>\<open>span_attributes.name\<close>, and a root that has no \<^verbatim>\<open>metadata\<close>.
\<close>

definition env_nameless :: env where
  "env_nameless =
     \<lparr>trace_file_exists = True, trace_file = Inr [''A'', ''Q''],
      json_loads = loads_example, login_error = None\<rparr>"

definition env_no_metadata :: env where
  "env_no_metadata =
     \<lparr>trace_file_exists = True, trace_file = Inr [''M''],
      json_loads = loads_example, login_error = None\<rparr>"

definition args_zero :: args where
  "args_zero = \<lparr>flatten = False, iterations = 0, limit = None, batch_size = None\<rparr>"

section \<open>Vocabulary of the replay properties\<close>

text \<open>
  Nesting of a trace, read with the stack of the units open so far (innermost first): a root
  unit opens and closes at the outermost level, a child unit opens under the unit passed as
  its parent, payloads go to the innermost open unit, a unit closes only as the innermost
  one, and flushes and iteration log lines come between root units.
\<close>

fun well_nested :: "string list \<Rightarrow> event list \<Rightarrow> bool" where
  "well_nested st [] = (st = [])"
| "well_nested st (OpenRoot x nm # es) = (st = [] \<and> well_nested [x] es)"
| "well_nested st (OpenChild p x nm # es) = (take 1 st = [p] \<and> well_nested (x # st) es)"
| "well_nested st (Attach x i o' m # es) = (take 1 st = [x] \<and> well_nested st es)"
| "well_nested st (CloseChild x # es) = (take 1 st = [x] \<and> 2 \<le> length st \<and> well_nested (tl st) es)"
| "well_nested st (CloseRoot x # es) = (st = [x] \<and> well_nested [] es)"
| "well_nested st (Flush # es) = (st = [] \<and> well_nested st es)"
| "well_nested st (IterationDone k # es) = (st = [] \<and> well_nested st es)"

text \<open>The events that mark the end of a root, a flush or the end of an iteration.\<close>

fun is_mark :: "event \<Rightarrow> bool" where
  "is_mark (CloseRoot x) = True"
| "is_mark Flush = True"
| "is_mark (IterationDone k) = True"
| "is_mark e = False"

definition marks :: "event list \<Rightarrow> event list" where
  "marks evs = filter is_mark evs"

text \<open>
  The flush cadence in the words of the specification, for batch size \<open>B\<close>: after each root,
  a flush exactly when the number of roots replayed so far in the iteration is a multiple of
  \<open>B\<close>.
\<close>

definition spec_cadence :: "nat \<Rightarrow> string list \<Rightarrow> event list" where
  "spec_cadence B roots =
     concat (map (\<lambda>k. CloseRoot (roots ! k) # (if B dvd k + 1 then [Flush] else []))
               [0..<length roots])"

text \<open>
  The edges the child emission follows: from a record id to the ids registered in
  \<^verbatim>\<open>children\<close> under the span id of that record.
\<close>

definition edges :: "children \<Rightarrow> tree \<Rightarrow> (string \<times> string) set" where
  "edges ch tr = {(x, y). \<exists>row. tr x = Some row \<and> y \<in> set (children_get ch (span_id row))}"

text \<open>A record with the model tag in its metadata, and a tree with the records of \<open>S\<close> tagged.\<close>

definition tag_model :: "row \<Rightarrow> row" where
  "tag_model r =
     r\<lparr>metadata := map_option (\<lambda>md. dict_set md ''model'' (JStr DEFAULT_MODEL)) (metadata r)\<rparr>"

definition tagged :: "string set \<Rightarrow> tree \<Rightarrow> tree" where
  "tagged S tr = (\<lambda>k. if k \<in> S then map_option tag_model (tr k) else tr k)"

section \<open>The chain example\<close>

text \<open>
  The chain \<open>chain_rows\<close> as the indexing loop leaves it, its \<^verbatim>\<open>children\<close>, and the events of
  replaying its root, given the metadata attached to the root.
\<close>

definition chain_indexed :: "row list" where
  "chain_indexed =
     [mk_row ''A'' ''a'' Absent, mk_row ''B'' ''b'' (Parents [''a'']),
      mk_row ''C'' ''c'' (Parents [''b''])]"

definition chain_children :: children where
  "chain_children = [''a'' \<mapsto> [''B''], ''b'' \<mapsto> [''C'']]"

definition chain_events :: "dict \<Rightarrow> event list" where
  "chain_events md =
     [OpenRoot ''A'' ''Chat Pipeline'', Attach ''A'' JNull JNull (Some md),
      OpenChild ''A'' ''B'' ''B'', Attach ''B'' JNull JNull None,
      OpenChild ''B'' ''C'' ''C'', Attach ''C'' JNull JNull None,
      CloseChild ''C'', CloseChild ''B'', CloseRoot ''A'']"

section \<open>Vocabulary of the termination property\<close>

text \<open>
  The child emission at \<open>x\<close> returns within depth \<open>n\<close>, whatever the parent and for every tree
  whose edges lie in \<open>E\<close>.
\<close>

definition returns_within :: "children \<Rightarrow> (string \<times> string) set \<Rightarrow> nat \<Rightarrow> string \<Rightarrow> bool" where
  "returns_within ch E n x \<longleftrightarrow>
     (\<forall>tr p. edges ch tr \<subseteq> E \<longrightarrow> log_child_span n p x ch tr \<noteq> None)"

text \<open>
  A record set with a cycle: A names the root R and B as parents, B names A. The second and
  third definitions are the records as the indexing loop leaves them and its \<^verbatim>\<open>children\<close>.
\<close>

definition loop_rows :: "row list" where
  "loop_rows =
     [mk_row ''R'' ''r'' Null, mk_row ''A'' ''a'' (Parents [''r'', ''b'']),
      mk_row ''B'' ''b'' (Parents [''a''])]"

definition loop_indexed :: "row list" where
  "loop_indexed =
     [mk_row ''R'' ''r'' Absent, mk_row ''A'' ''a'' (Parents [''r'', ''b'']),
      mk_row ''B'' ''b'' (Parents [''a''])]"

definition loop_children :: children where
  "loop_children = [''r'' \<mapsto> [''A''], ''b'' \<mapsto> [''A''], ''a'' \<mapsto> [''B'']]"

section \<open>Vocabulary of the flush cadence\<close>

text \<open>
  What the roots loop leaves of its trace when only the marks are kept, counting the roots
  from \<open>idx\<close>: each root's closing, followed by the flush of the governor if it is due.
\<close>

definition cadence_from :: "int option \<Rightarrow> nat \<Rightarrow> string list \<Rightarrow> event list" where
  "cadence_from bs idx roots =
     concat (map (\<lambda>k. CloseRoot (roots ! k) # batch_flush bs (idx + k)) [0..<length roots])"

text \<open>
  Two iterations with batch size 2, and the events of replaying A, B and C as three roots
  without children, given the metadata attached to each.
\<close>

definition args_two :: args where
  "args_two = \<lparr>flatten = False, iterations = 2, limit = None, batch_size = Some 2\<rparr>"

definition root_events :: "dict \<Rightarrow> string \<Rightarrow> event list" where
  "root_events md x = [OpenRoot x ''Chat Pipeline'', Attach x JNull JNull (Some md), CloseRoot x]"

definition flat_iteration :: "dict \<Rightarrow> event list" where
  "flat_iteration md =
     root_events md ''A'' @ root_events md ''B'' @ [Flush] @ root_events md ''C''"

section \<open>Vocabulary of the metadata property\<close>

text \<open>The metadata attached in a trace, in order, each with the id of the record it is for.\<close>

fun attached :: "event list \<Rightarrow> (string \<times> dict) list" where
  "attached [] = []"
| "attached (Attach x i o' (Some m) # es) = (x, m) # attached es"
| "attached (e # es) = attached es"

text \<open>
  Every attachment of metadata in the trace is for one of the roots and carries the model
  tag.
\<close>

definition tags_roots_only :: "string list \<Rightarrow> event list \<Rightarrow> bool" where
  "tags_roots_only roots evs \<longleftrightarrow>
     list_all (\<lambda>(x, m). x \<in> set roots \<and> dict_get m ''model'' = Some (JStr DEFAULT_MODEL))
       (attached evs)"

section \<open>Record store: properties\<close>

lemma length_huge_line: "length huge_line = 4301"
  by (simp add: huge_line_def)

lemma huge_line_neq:
  "length l \<noteq> 4301 \<Longrightarrow> (l = huge_line) = False"
  "length l \<noteq> 4301 \<Longrightarrow> (huge_line = l) = False"
  using length_huge_line by auto

lemma upt_Suc_shift: "[0..<Suc n] = 0 # map Suc [0..<n]"
  by (simp add: upt_conv_Cons map_Suc_upt del: upt_Suc)

lemma warnings_of_Nil: "warnings_of jl i [] = []"
  by (simp add: warnings_of_def)

lemma warnings_of_Cons:
  "warnings_of jl i (l # ls)
     = (if jl l = JSONDecodeError then [i + 1] else []) @ warnings_of jl (Suc i) ls"
  by (simp add: warnings_of_def upt_Suc_shift filter_map o_def del: upt_Suc)

lemma parse_lines_unlimited:
  assumes "\<forall>l\<in>set ls. \<not> raises (jl l)"
  shows "parse_lines jl None i ls (rows, ws)
           = Inr (rows @ List.map_filter (returned \<circ> jl) ls, ws @ warnings_of jl i ls)"
  using assms
proof (induction ls arbitrary: i rows ws)
  case Nil
  then show ?case by (simp add: List.map_filter_simps warnings_of_Nil)
next
  case (Cons l ls)
  then have rest: "\<forall>l\<in>set ls. \<not> raises (jl l)" and l: "\<not> raises (jl l)" by simp_all
  from l show ?case
    by (cases "jl l")
       (simp_all add: Cons.IH [OF rest] limit_reached_def List.map_filter_simps
                      warnings_of_Cons returned_def raises_def)
qed

lemma parse_lines_raise:
  assumes "\<forall>l\<in>set pre. \<not> raises (jl l)" and "jl l = Raises e"
  shows "parse_lines jl None i (pre @ l # post) (rows, ws) = Inl (e, ws @ warnings_of jl i pre)"
  using assms(1)
proof (induction pre arbitrary: i rows ws)
  case Nil
  then show ?case by (simp add: assms(2) limit_reached_def warnings_of_Nil)
next
  case (Cons x pre)
  then have rest: "\<forall>l\<in>set pre. \<not> raises (jl l)" and x: "\<not> raises (jl x)" by simp_all
  from x show ?case
    by (cases "jl x")
       (simp_all add: Cons.IH [OF rest] limit_reached_def warnings_of_Cons raises_def)
qed

lemma parse_lines_Inl:
  "parse_lines jl None i ls acc = Inl (e, ws) \<Longrightarrow> \<exists>l\<in>set ls. jl l = Raises e"
proof (induction ls arbitrary: i acc)
  case Nil
  then show ?case by (cases acc) simp
next
  case (Cons l ls)
  obtain rows ws' where acc: "acc = (rows, ws')" by (cases acc)
  from Cons.prems show ?case
    by (cases "jl l") (auto simp: acc limit_reached_def dest: Cons.IH)
qed

lemma parse_lines_limited:
  "L \<noteq> 0 \<Longrightarrow>
   parse_lines jl (Some L) i ls acc = parse_lines jl None i (take (nat L - i) ls) acc"
proof (induction ls arbitrary: i acc)
  case Nil
  then show ?case by (cases acc) simp
next
  case (Cons l ls)
  obtain rows ws where acc: "acc = (rows, ws)" by (cases acc)
  show ?case
  proof (cases "L \<le> int i")
    case True
    then have "nat L - i = 0" by simp
    with True Cons.prems show ?thesis by (simp add: acc limit_reached_def)
  next
    case False
    then obtain d where d: "nat L - i = Suc d" by (cases "nat L - i") auto
    then have d': "nat L - Suc i = d" by simp
    from False Cons.prems show ?thesis
      by (cases "jl l") (simp_all add: acc limit_reached_def d d' Cons.IH)
  qed
qed

lemma parse_lines_zero_limit:
  "parse_lines jl (Some 0) i ls acc = parse_lines jl None i ls acc"
proof (induction ls arbitrary: i acc)
  case Nil
  then show ?case by (cases acc) simp
next
  case (Cons l ls)
  obtain rows ws where acc: "acc = (rows, ws)" by (cases acc)
  show ?case by (cases "jl l") (simp_all add: acc limit_reached_def Cons.IH)
qed

lemma parse_lines_within_limit:
  "parse_lines jl lim 0 lines acc = parse_lines jl None 0 (within_limit lim lines) acc"
proof (cases lim)
  case None
  then show ?thesis by (simp add: within_limit_def)
next
  case (Some L)
  show ?thesis
  proof (cases "L = 0")
    case True
    with Some show ?thesis by (simp add: within_limit_def parse_lines_zero_limit)
  next
    case False
    from parse_lines_limited [OF False, of jl 0 lines acc] Some False
    show ?thesis by (simp add: within_limit_def)
  qed
qed

lemma load_rows_within_limit:
  "load_rows jl lim (Inr lines) = load_rows jl None (Inr (within_limit lim lines))"
  using parse_lines_within_limit [of jl lim lines "([], [])"] by (simp add: load_rows_def)

lemma length_filter_indices:
  "length (filter (\<lambda>k. P (xs ! k)) [0..<length xs]) = length (filter P xs)"
proof -
  have "map ((!) xs) (filter (\<lambda>k. P (xs ! k)) [0..<length xs])
        = filter P (map ((!) xs) [0..<length xs])"
    by (simp add: filter_map o_def)
  then have "length (filter (\<lambda>k. P (xs ! k)) [0..<length xs])
        = length (filter P (map ((!) xs) [0..<length xs]))"
    by (metis length_map)
  then show ?thesis by (simp add: map_nth)
qed

lemma length_warnings_of:
  "length (warnings_of jl i ls) = length (filter (\<lambda>l. jl l = JSONDecodeError) ls)"
  using length_filter_indices [of "\<lambda>l. jl l = JSONDecodeError" ls]
  by (simp add: warnings_of_def)

lemma length_returned:
  "length (List.map_filter (returned \<circ> jl) ls) = length (filter (\<lambda>l. \<exists>v. jl l = Returns v) ls)"
proof (induction ls)
  case Nil
  then show ?case by (simp add: List.map_filter_simps)
next
  case (Cons l ls)
  then show ?case
    by (cases "jl l") (simp_all add: List.map_filter_simps returned_def)
qed


lemma validate_None_iff:
  "validate a = None \<longleftrightarrow>
     1 \<le> iterations a \<and> (\<forall>l. limit a = Some l \<longrightarrow> 1 \<le> l) \<and> (\<forall>b. batch_size a = Some b \<longrightarrow> 1 \<le> b)"
  by (auto simp: validate_def split: option.splits)



lemma tree_rows_records:
  assumes "\<forall>v\<in>set vals. \<exists>r. v = Record r"
  shows "\<exists>records. tree_rows vals = Inr records \<and> map Record records = vals"
  using assms
proof (induction vals)
  case Nil
  then show ?case by simp
next
  case (Cons v vals)
  then obtain r records where "v = Record r" "tree_rows vals = Inr records"
    "map Record records = vals"
    by auto
  then show ?case by simp
qed

lemma tree_rows_map_Record: "tree_rows (map Record rs) = Inr rs"
  by (induction rs) simp_all

lemma tree_rows_Inl:
  "tree_rows vals = Inl e \<Longrightarrow> e = TypeError \<and> (\<exists>v. Value v \<in> set vals)"
proof (induction vals rule: tree_rows.induct)
  case 1
  then show ?case by simp
next
  case (2 r rest)
  then show ?case by (auto split: sum.splits)
next
  case (3 v rest)
  then show ?case by auto
qed

lemma set_map_filter_returned:
  "v \<in> set (List.map_filter (returned \<circ> jl) ls) \<Longrightarrow> \<exists>l\<in>set ls. jl l = Returns v"
  by (auto simp: List.map_filter_def returned_def split: loads_outcome.splits)

text \<open>
  Claim C7 says that no malformed line makes the run abort and that only a failure to open or
  read the file propagates. The loop catches \<^verbatim>\<open>JSONDecodeError\<close> and nothing else. A line
  that holds \<^verbatim>\<open>42\<close> is no record, yet \<^verbatim>\<open>json.loads\<close> returns for it: it is kept without a
  warning, and the run ends with \<^verbatim>\<open>TypeError\<close> when \<^verbatim>\<open>tree\<close> is filled. On a line that holds
  an integer of 4301 digits \<^verbatim>\<open>json.loads\<close> raises \<^verbatim>\<open>ValueError\<close>, which leaves the loop and the
  run, after the warning for the malformed first line, although the file was opened and
  read.
\<close>

theorem malformed_lines_counterexample:
  "loads_example ''42'' = Returns (Value (VInt 42))
   \<and> trace_file env_value = Inr [''A'', ''42'']
   \<and> main_bt 0 env_value args_unlimited
       = Some ([LoadDotenv, PathExists, Login, ReadTraceFile], Raised TypeError)
   \<and> main_ls 0 env_value args_unlimited
       = Some ([LoadDotenv, PathExists, ReadTraceFile], Raised TypeError)
   \<and> loads_example huge_line = Raises ValueError
   \<and> trace_file env_huge = Inr [''{'', huge_line, ''A'']
   \<and> main_bt 0 env_huge args_unlimited
       = Some ([LoadDotenv, PathExists, Login, ReadTraceFile, Warning 1], Raised ValueError)
   \<and> main_ls 0 env_huge args_unlimited
       = Some ([LoadDotenv, PathExists, ReadTraceFile, Warning 1], Raised ValueError)"
proof -
  have out: "loads_example ''A'' = Returns (Record (mk_row ''A'' ''a'' Null))"
    "loads_example ''42'' = Returns (Value (VInt 42))"
    "loads_example ''{'' = JSONDecodeError"
    "loads_example huge_line = Raises ValueError"
    by (simp_all add: loads_example_def huge_line_neq)
  have v: "load_rows (json_loads env_value) (limit args_unlimited) (trace_file env_value)
      = Inr ([Record (mk_row ''A'' ''a'' Null), Value (VInt 42)], [])"
    by (simp add: env_value_def args_unlimited_def load_rows_def limit_reached_def out)
  have h: "load_rows (json_loads env_huge) (limit args_unlimited) (trace_file env_huge)
      = Inl (ValueError, [1])"
    by (simp add: env_huge_def args_unlimited_def load_rows_def limit_reached_def out)
  have st: "startup env_value args_unlimited = ([LoadDotenv, PathExists], None)"
    "startup env_huge args_unlimited = ([LoadDotenv, PathExists], None)"
    by (simp_all add: startup_def env_value_def env_huge_def args_unlimited_def validate_def)
  have lg: "login_error env_value = None" "login_error env_huge = None"
    by (simp_all add: env_value_def env_huge_def)
  have tf: "trace_file env_value = Inr [''A'', ''42'']"
    "trace_file env_huge = Inr [''{'', huge_line, ''A'']"
    by (simp_all add: env_value_def env_huge_def)
  have "main_bt 0 env_value args_unlimited
       = Some ([LoadDotenv, PathExists, Login, ReadTraceFile], Raised TypeError)"
    "main_ls 0 env_value args_unlimited
       = Some ([LoadDotenv, PathExists, ReadTraceFile], Raised TypeError)"
    "main_bt 0 env_huge args_unlimited
       = Some ([LoadDotenv, PathExists, Login, ReadTraceFile, Warning 1], Raised ValueError)"
    "main_ls 0 env_huge args_unlimited
       = Some ([LoadDotenv, PathExists, ReadTraceFile, Warning 1], Raised ValueError)"
    by (simp_all add: main_bt_def main_ls_def st lg v h)
  with out tf show ?thesis by simp
qed

text \<open>
  Claim C7, amended. When, within the limit, \<^verbatim>\<open>json.loads\<close> returns a dictionary or raises
  \<^verbatim>\<open>JSONDecodeError\<close> on every line, loading and the filling of \<^verbatim>\<open>tree\<close> raise nothing: there
  is one record for each line of the first kind and one warning for each line of the second.
  The loading step raises only when opening or reading the file does, or when \<^verbatim>\<open>json.loads\<close>
  raises another exception on a line within the limit; it does so at the first such line,
  after the warnings for the lines before it.
\<close>

theorem malformed_lines_skipped:
  "((\<forall>l\<in>set (within_limit (limit a) lines). is_record (jl l) \<or> jl l = JSONDecodeError) \<longrightarrow>
      (\<exists>loaded warnings records.
          load_rows jl (limit a) (Inr lines) = Inr (loaded, warnings)
        \<and> loaded = List.map_filter (returned \<circ> jl) (within_limit (limit a) lines)
        \<and> tree_rows loaded = Inr records
        \<and> map Record records = loaded
        \<and> length records
            = length (filter (\<lambda>l. is_record (jl l)) (within_limit (limit a) lines))
        \<and> warnings = warnings_of jl 0 (within_limit (limit a) lines)
        \<and> length warnings
            = length (filter (\<lambda>l. jl l = JSONDecodeError) (within_limit (limit a) lines))))
   \<and> (load_rows jl (limit a) file = Inl (e, ws) \<longrightarrow>
        (file = Inl e \<and> ws = [])
        \<or> (\<exists>lines. file = Inr lines
               \<and> (\<exists>l\<in>set (within_limit (limit a) lines). jl l = Raises e)))
   \<and> load_rows jl (limit a) (Inl e) = Inl (e, [])
   \<and> (within_limit (limit a) lines = pre @ l # post \<and> (\<forall>x\<in>set pre. \<not> raises (jl x))
        \<and> jl l = Raises e \<longrightarrow>
        load_rows jl (limit a) (Inr lines) = Inl (e, warnings_of jl 0 pre))"
proof (intro conjI impI)
  let ?W = "within_limit (limit a) lines"
  assume h: "\<forall>l\<in>set ?W. is_record (jl l) \<or> jl l = JSONDecodeError"
  then have nr: "\<forall>l\<in>set ?W. \<not> raises (jl l)"
    by (auto simp: raises_def is_record_def split: loads_outcome.splits)
  let ?loaded = "List.map_filter (returned \<circ> jl) ?W"
  have "load_rows jl (limit a) (Inr lines) = load_rows jl None (Inr ?W)"
    by (rule load_rows_within_limit)
  also have "\<dots> = Inr (?loaded, warnings_of jl 0 ?W)"
    using parse_lines_unlimited [OF nr, of 0 "[]" "[]"] by (simp add: load_rows_def)
  finally have res: "load_rows jl (limit a) (Inr lines) = Inr (?loaded, warnings_of jl 0 ?W)" .
  have "\<forall>v\<in>set ?loaded. \<exists>r. v = Record r"
  proof
    fix v assume "v \<in> set ?loaded"
    from set_map_filter_returned [OF this] obtain l where "l \<in> set ?W" "jl l = Returns v"
      by blast
    with h show "\<exists>r. v = Record r"
      by (cases v) (auto simp: is_record_def)
  qed
  from tree_rows_records [OF this] obtain records where
    rec: "tree_rows ?loaded = Inr records" "map Record records = ?loaded"
    by blast
  have "filter (\<lambda>l. \<exists>v. jl l = Returns v) ?W = filter (\<lambda>l. is_record (jl l)) ?W"
    using h by (intro filter_cong) (auto simp: is_record_def split: loads_outcome.splits loaded.splits)
  then have "length ?loaded = length (filter (\<lambda>l. is_record (jl l)) ?W)"
    by (simp add: length_returned)
  moreover have "length records = length ?loaded"
    using rec(2) by (metis length_map)
  ultimately have n: "length records = length (filter (\<lambda>l. is_record (jl l)) ?W)" by simp
  from res rec n length_warnings_of [of jl 0 ?W]
  show "\<exists>loaded warnings records.
          load_rows jl (limit a) (Inr lines) = Inr (loaded, warnings)
        \<and> loaded = List.map_filter (returned \<circ> jl) ?W
        \<and> tree_rows loaded = Inr records
        \<and> map Record records = loaded
        \<and> length records = length (filter (\<lambda>l. is_record (jl l)) ?W)
        \<and> warnings = warnings_of jl 0 ?W
        \<and> length warnings = length (filter (\<lambda>l. jl l = JSONDecodeError) ?W)"
    by blast
next
  assume r: "load_rows jl (limit a) file = Inl (e, ws)"
  show "(file = Inl e \<and> ws = [])
        \<or> (\<exists>lines. file = Inr lines
               \<and> (\<exists>l\<in>set (within_limit (limit a) lines). jl l = Raises e))"
  proof (cases "file")
    case (Inl e')
    with r show ?thesis by (simp add: load_rows_def)
  next
    case (Inr lines)
    with r have "load_rows jl None (Inr (within_limit (limit a) lines)) = Inl (e, ws)"
      using load_rows_within_limit [of jl "limit a" lines] by simp
    then have "parse_lines jl None 0 (within_limit (limit a) lines) ([], []) = Inl (e, ws)"
      by (simp add: load_rows_def)
    from parse_lines_Inl [OF this] Inr show ?thesis by blast
  qed
next
  show "load_rows jl (limit a) (Inl e) = Inl (e, [])" by (simp add: load_rows_def)
next
  assume "within_limit (limit a) lines = pre @ l # post \<and> (\<forall>x\<in>set pre. \<not> raises (jl x))
        \<and> jl l = Raises e"
  then have w: "within_limit (limit a) lines = pre @ l # post"
    and pre: "\<forall>x\<in>set pre. \<not> raises (jl x)" and l: "jl l = Raises e"
    by simp_all
  have "load_rows jl (limit a) (Inr lines) = load_rows jl None (Inr (pre @ l # post))"
    using load_rows_within_limit [of jl "limit a" lines] by (simp only: w)
  also have "\<dots> = Inl (e, warnings_of jl 0 pre)"
    using parse_lines_raise [OF pre l, of 0 post "[]" "[]"] by (simp add: load_rows_def)
  finally show "load_rows jl (limit a) (Inr lines) = Inl (e, warnings_of jl 0 pre)" .
qed

theorem malformed_lines_skipped_witness:
  "within_limit (limit args_unlimited) [''A'', ''x'', ''C'', ''{''] = [''A'', ''x'', ''C'', ''{'']
   \<and> map loads_example [''A'', ''x'', ''C'', ''{'']
       = [Returns (Record (mk_row ''A'' ''a'' Null)), JSONDecodeError,
          Returns (Record (mk_row ''C'' ''c'' (Parents [''b'']))), JSONDecodeError]
   \<and> load_rows loads_example (limit args_unlimited) (Inr [''A'', ''x'', ''C'', ''{''])
       = Inr ([Record (mk_row ''A'' ''a'' Null), Record (mk_row ''C'' ''c'' (Parents [''b'']))],
              [2, 4])
   \<and> tree_rows [Record (mk_row ''A'' ''a'' Null), Record (mk_row ''C'' ''c'' (Parents [''b'']))]
       = Inr [mk_row ''A'' ''a'' Null, mk_row ''C'' ''c'' (Parents [''b''])]
   \<and> load_rows loads_example (limit args_unlimited) (Inl OSError) = Inl (OSError, [])
   \<and> within_limit (limit args_unlimited) [''{'', huge_line, ''A''] = [''{''] @ huge_line # [''A'']
   \<and> loads_example huge_line = Raises ValueError
   \<and> load_rows loads_example (limit args_unlimited) (Inr [''{'', huge_line, ''A''])
       = Inl (ValueError, [1])"
proof -
  let ?ls = "[''A'', ''x'', ''C'', ''{'']"
  note t = malformed_lines_skipped [where a = args_unlimited and jl = loads_example]
  have w: "within_limit (limit args_unlimited) ls = ls" for ls
    by (simp add: within_limit_def args_unlimited_def)
  have out: "loads_example ''A'' = Returns (Record (mk_row ''A'' ''a'' Null))"
    "loads_example ''x'' = JSONDecodeError"
    "loads_example ''C'' = Returns (Record (mk_row ''C'' ''c'' (Parents [''b''])))"
    "loads_example ''{'' = JSONDecodeError"
    "loads_example huge_line = Raises ValueError"
    by (simp_all add: loads_example_def huge_line_neq)
  have h: "\<forall>l\<in>set (within_limit (limit args_unlimited) ?ls).
             is_record (loads_example l) \<or> loads_example l = JSONDecodeError"
    by (simp add: w out is_record_def)
  from t [where lines = ?ls, THEN conjunct1, THEN mp, OF h]
  have "load_rows loads_example (limit args_unlimited) (Inr ?ls)
      = Inr (List.map_filter (returned \<circ> loads_example) ?ls, warnings_of loads_example 0 ?ls)"
    by (auto simp: w)
  moreover have "[0..<4] = [0, Suc 0, 2, 3]" by (simp add: upt_rec)
  ultimately have a: "load_rows loads_example (limit args_unlimited) (Inr ?ls)
       = Inr ([Record (mk_row ''A'' ''a'' Null), Record (mk_row ''C'' ''c'' (Parents [''b'']))],
              [2, 4])"
    by (simp add: List.map_filter_simps out returned_def warnings_of_def)
  from t [where e = OSError, THEN conjunct2, THEN conjunct2, THEN conjunct1]
  have b: "load_rows loads_example (limit args_unlimited) (Inl OSError) = Inl (OSError, [])" .
  have pre: "within_limit (limit args_unlimited) [''{'', huge_line, ''A'']
             = [''{''] @ huge_line # [''A'']
           \<and> (\<forall>x\<in>set [''{'']. \<not> raises (loads_example x))
           \<and> loads_example huge_line = Raises ValueError"
    by (simp add: w out raises_def)
  from t [where lines = "[''{'', huge_line, ''A'']" and pre = "[''{'']" and l = huge_line
            and post = "[''A'']" and e = ValueError,
          THEN conjunct2, THEN conjunct2, THEN conjunct2, THEN mp, OF pre]
  have c: "load_rows loads_example (limit args_unlimited) (Inr [''{'', huge_line, ''A''])
       = Inl (ValueError, [1])"
    by (simp add: warnings_of_def out)
  from a b c show ?thesis by (simp add: w out)
qed

section \<open>Tree indexer: properties\<close>

lemma children_get_add_child:
  "children_get (add_child rid p ch) q = (if q = p then children_get ch p @ [rid] else children_get ch q)"
  by (simp add: add_child_def children_get_def Let_def)

lemma dom_add_child: "dom (add_child rid p ch) = insert p (dom ch)"
  by (auto simp: add_child_def Let_def)

lemma children_get_fold_add_child:
  "children_get (fold (add_child rid) ps ch) q
     = children_get ch q @ map (\<lambda>_. rid) (filter (\<lambda>p. p = q) ps)"
  by (induction ps arbitrary: ch) (auto simp: children_get_add_child)

lemma dom_fold_add_child: "dom (fold (add_child rid) ps ch) = dom ch \<union> set ps"
  by (induction ps arbitrary: ch) (auto simp: dom_add_child)

lemma index_row_hierarchy_cases:
  assumes "index_row mk False r (ch, roots) = Inr (r', ch', roots')"
    and "mk = make_root_bt \<or> mk = make_root_ls"
  shows "span_parents r \<noteq> Absent
       \<and> r' = (if parents_of r = [] then r\<lparr>span_parents := Absent\<rparr> else r)
       \<and> ch' = fold (add_child (row_id r)) (parents_of r) ch
       \<and> roots' = (if parents_of r = [] then roots @ [row_id r] else roots)"
  using assms
  by (cases "span_parents r")
     (auto simp: index_row_def make_root_bt_def make_root_ls_def parents_of_def split: if_splits)

lemma index_loop_hierarchy:
  assumes "index_loop (index_row mk False) rows (ch, roots) = Inr (rows', ch', roots')"
    and "mk = make_root_bt \<or> mk = make_root_ls"
  shows "roots' = roots @ map row_id (filter (\<lambda>r. parents_of r = []) rows)
       \<and> (\<forall>p. children_get ch' p = children_get ch p @ registered rows p)
       \<and> dom ch' = dom ch \<union> (\<Union>r\<in>set rows. set (parents_of r))
       \<and> (\<forall>r\<in>set rows. span_parents r \<noteq> Absent)
       \<and> rows' = map (\<lambda>r. if parents_of r = [] then r\<lparr>span_parents := Absent\<rparr> else r) rows"
  using assms(1)
proof (induction rows arbitrary: ch roots rows' ch' roots')
  case Nil
  then show ?case by (simp add: registered_def)
next
  case (Cons r rs)
  from Cons.prems obtain r1 ch1 roots1 rs1 where
    step: "index_row mk False r (ch, roots) = Inr (r1, ch1, roots1)" and
    rest: "index_loop (index_row mk False) rs (ch1, roots1) = Inr (rs1, ch', roots')" and
    rows': "rows' = r1 # rs1"
    by (auto split: sum.splits)
  note s = index_row_hierarchy_cases [OF step assms(2)]
  note t = Cons.IH [OF rest]
  show ?case
    using s t rows'
    by (auto simp: registered_def children_get_fold_add_child dom_fold_add_child)
qed


lemma index_row_present:
  assumes "span_parents r \<noteq> Absent"
  shows "index_row make_root_bt flat r st = index_row make_root_ls flat r st"
    and "\<exists>res. index_row make_root_ls flat r st = Inr res"
  using assms
  by (cases "span_parents r"; cases st;
      simp add: index_row_def make_root_bt_def make_root_ls_def)+

lemma index_loop_present:
  assumes "\<forall>r\<in>set rows. span_parents r \<noteq> Absent"
  shows "index_loop (index_row make_root_bt flat) rows st
           = index_loop (index_row make_root_ls flat) rows st
       \<and> (\<exists>res. index_loop (index_row make_root_ls flat) rows st = Inr res)"
  using assms
proof (induction rows arbitrary: st)
  case Nil
  then show ?case by simp
next
  case (Cons r rs)
  then have r: "span_parents r \<noteq> Absent" by simp
  from index_row_present(2) [OF r] obtain r' st' where
    step: "index_row make_root_ls flat r st = Inr (r', st')" by fastforce
  from Cons have "index_loop (index_row make_root_bt flat) rs st'
           = index_loop (index_row make_root_ls flat) rs st'
       \<and> (\<exists>res. index_loop (index_row make_root_ls flat) rs st' = Inr res)"
    by simp
  then show ?case
    by (auto simp: index_row_present(1) [OF r] step split: sum.splits)
qed

lemma index_loop_flatten_ls:
  "index_loop (index_row make_root_ls True) rows (ch, roots)
     = Inr (map (\<lambda>r. r\<lparr>span_parents := Absent\<rparr>) rows, ch, roots @ map row_id rows)"
  by (induction rows arbitrary: roots) (simp_all add: index_row_def make_root_ls_def)

lemma index_ls_flatten:
  "index_ls True rows = Inr (map (\<lambda>r. r\<lparr>span_parents := Absent\<rparr>) rows, Map.empty, map row_id rows)"
  by (simp add: index_ls_def index_loop_flatten_ls)

lemma index_bt_flatten:
  assumes "\<forall>r\<in>set rows. span_parents r \<noteq> Absent"
  shows "index_bt True rows = Inr (map (\<lambda>r. r\<lparr>span_parents := Absent\<rparr>) rows, Map.empty, map row_id rows)"
  using index_loop_present [OF assms, of True "(Map.empty, [])"]
  by (simp add: index_bt_def index_loop_flatten_ls)

lemma index_loop_flatten_bt_raises:
  "(\<exists>r\<in>set rows. span_parents r = Absent) \<Longrightarrow>
   index_loop (index_row make_root_bt True) rows st = Inl KeyError"
proof (induction rows arbitrary: st)
  case Nil
  then show ?case by simp
next
  case (Cons r rs)
  show ?case
  proof (cases "span_parents r = Absent")
    case True
    then show ?thesis by (cases st) (simp add: index_row_def make_root_bt_def)
  next
    case False
    with Cons.prems have "\<exists>r\<in>set rs. span_parents r = Absent" by simp
    from Cons.IH [OF this] False show ?thesis
      by (cases st) (simp add: index_row_def make_root_bt_def)
  qed
qed


lemma index_hierarchy_same: "index_bt False rows = index_ls False rows"
proof -
  have "index_row make_root_bt False = index_row make_root_ls False"
    by (intro ext) (auto simp: index_row_def make_root_bt_def make_root_ls_def
                         split: parents_field.splits)
  then show ?thesis by (simp add: index_bt_def index_ls_def)
qed

lemma count_list_const_map:
  "count_list (map (\<lambda>_. c) zs) x = (if x = c then length zs else 0)"
  by (induction zs) auto

lemma count_registered_other:
  "i \<notin> row_id ` set rows \<Longrightarrow> count_list (registered rows p) i = 0"
  by (induction rows) (auto simp: registered_def count_list_const_map)

lemma count_registered:
  assumes "distinct (map row_id rows)" and "r \<in> set rows"
  shows "count_list (registered rows p) (row_id r) = count_list (parents_of r) p"
  using assms
proof (induction rows)
  case Nil
  then show ?case by simp
next
  case (Cons x xs)
  have len: "length (filter (\<lambda>q. q = p) ps) = count_list ps p" for ps
    by (induction ps) auto
  have split: "registered (x # xs) p
      = map (\<lambda>_. row_id x) (filter (\<lambda>q. q = p) (parents_of x)) @ registered xs p"
    by (simp add: registered_def)
  show ?case
  proof (cases "r = x")
    case True
    from Cons.prems(1) have "row_id x \<notin> row_id ` set xs" by simp
    from count_registered_other [OF this] True show ?thesis
      by (simp add: split count_list_const_map len)
  next
    case False
    with Cons.prems have r: "r \<in> set xs" and d: "distinct (map row_id xs)" by auto
    from Cons.prems(1) have "row_id x \<notin> row_id ` set xs" by simp
    with r have "row_id r \<noteq> row_id x" by (metis imageI)
    with Cons.IH [OF d r] show ?thesis
      by (simp add: split count_list_const_map)
  qed
qed

lemma index_hierarchy:
  assumes "index_bt False rows = Inr (rows', ch, roots)"
  shows "roots = map row_id (filter (\<lambda>r. parents_of r = []) rows)"
    and "children_get ch p = registered rows p"
    and "dom ch = (\<Union>r\<in>set rows. set (parents_of r))"
    and "\<forall>r\<in>set rows. span_parents r \<noteq> Absent"
proof -
  from assms have "index_loop (index_row make_root_bt False) rows (Map.empty, [])
      = Inr (rows', ch, roots)"
    by (simp add: index_bt_def)
  from index_loop_hierarchy [OF this]
  show "roots = map row_id (filter (\<lambda>r. parents_of r = []) rows)"
    and "children_get ch p = registered rows p"
    and "dom ch = (\<Union>r\<in>set rows. set (parents_of r))"
    and "\<forall>r\<in>set rows. span_parents r \<noteq> Absent"
    by (simp_all add: children_get_def)
qed

lemma index_hierarchy_placement:
  assumes ok: "index_bt False rows = Inr (rows', ch, roots)"
    and d: "distinct (map row_id rows)"
    and r: "r \<in> set rows"
  shows "parents_of r \<noteq> [] \<longrightarrow>
           row_id r \<notin> set roots
         \<and> (\<forall>p. count_list (children_get ch p) (row_id r) = count_list (parents_of r) p)
         \<and> (\<forall>p\<in>set (parents_of r). row_id r \<in> set (children_get ch p))"
    and "parents_of r = [] \<longrightarrow>
           row_id r \<in> set roots \<and> (\<forall>p. row_id r \<notin> set (children_get ch p))"
proof -
  note h = index_hierarchy [OF ok]
  have cnt: "count_list (children_get ch p) (row_id r) = count_list (parents_of r) p" for p
    by (simp add: h(2) count_registered [OF d r])
  have notroot: "row_id r \<notin> set roots" if ne: "parents_of r \<noteq> []"
  proof
    assume "row_id r \<in> set roots"
    then obtain r' where r': "r' \<in> set rows" "parents_of r' = []" "row_id r' = row_id r"
      by (auto simp: h(1))
    from d r r'(1,3) have "r' = r" by (metis distinct_map inj_on_def)
    with r'(2) ne show False by simp
  qed
  show "parents_of r \<noteq> [] \<longrightarrow>
           row_id r \<notin> set roots
         \<and> (\<forall>p. count_list (children_get ch p) (row_id r) = count_list (parents_of r) p)
         \<and> (\<forall>p\<in>set (parents_of r). row_id r \<in> set (children_get ch p))"
  proof (intro impI conjI allI ballI)
    fix p assume "p \<in> set (parents_of r)"
    then have "0 < count_list (parents_of r) p" by (metis count_list_0_iff gr0I)
    then have "0 < count_list (children_get ch p) (row_id r)" by (simp add: cnt)
    then show "row_id r \<in> set (children_get ch p)" by (metis count_list_0_iff less_irrefl)
  qed (simp_all add: notroot cnt)
  show "parents_of r = [] \<longrightarrow>
           row_id r \<in> set roots \<and> (\<forall>p. row_id r \<notin> set (children_get ch p))"
  proof (intro impI conjI allI)
    assume e: "parents_of r = []"
    with r show "row_id r \<in> set roots" by (auto simp: h(1))
    fix p
    from e have "count_list (children_get ch p) (row_id r) = 0" by (simp add: cnt)
    then show "row_id r \<notin> set (children_get ch p)" by (simp add: count_list_0_iff)
  qed
qed

text \<open>
  With hierarchy kept, the two scripts index alike on every input, and when no exception is
  raised (lemmas \<open>index_hierarchy\<close> and \<open>index_hierarchy_placement\<close>): the roots are the ids of
  the records that declare no parent, in input order; the list under a parent is \<open>registered\<close>,
  so a record that declares parents is listed under each of them once per declaration, in
  input order; and with unique ids such a record is no root, while a record with an empty or
  \<^verbatim>\<open>null\<close> parent list is a root and nobody's child.

  Claim C3 adds that a record whose \<^verbatim>\<open>span_parents\<close> key is absent is a root too. There the
  condition of the loop reads \<^verbatim>\<open>row["span_parents"]\<close> in both scripts, which raises
  \<^verbatim>\<open>KeyError\<close>: the indexing of a single record without the key ends in that exception and
  yields no roots, and a run of either script on a trace file with this one record ends with
  the exception uncaught, before anything is sent to the backend.
\<close>

theorem absent_parents_raise_with_hierarchy:
  "index_bt False [mk_row ''X'' ''x'' Absent] = Inl KeyError
   \<and> index_ls False [mk_row ''X'' ''x'' Absent] = Inl KeyError
   \<and> main_bt 0 env_absent args_unlimited
       = Some ([LoadDotenv, PathExists, Login, ReadTraceFile], Raised KeyError)
   \<and> main_ls 0 env_absent args_unlimited
       = Some ([LoadDotenv, PathExists, ReadTraceFile], Raised KeyError)"
proof -
  have ix: "index_bt False [mk_row ''X'' ''x'' Absent] = Inl KeyError"
    "index_ls False [mk_row ''X'' ''x'' Absent] = Inl KeyError"
    by (simp_all add: index_bt_def index_ls_def index_row_def mk_row_def)
  have rows: "load_rows (json_loads env_absent) (limit args_unlimited) (trace_file env_absent)
      = Inr ([Record (mk_row ''X'' ''x'' Absent)], [])"
    by (simp add: env_absent_def args_unlimited_def load_rows_def limit_reached_def
                  loads_example_def huge_line_neq)
  have st: "startup env_absent args_unlimited = ([LoadDotenv, PathExists], None)"
    by (simp add: startup_def env_absent_def args_unlimited_def validate_def)
  have fl: "flatten args_unlimited = False" "login_error env_absent = None"
    by (simp_all add: args_unlimited_def env_absent_def)
  show ?thesis
    by (simp add: ix main_bt_def main_ls_def st rows fl)
qed

text \<open>
  With \<^verbatim>\<open>--flatten\<close>, \<^verbatim>\<open>load_langsmith.py\<close> makes every record a root, in input order, and leaves
  \<^verbatim>\<open>children\<close> empty (lemma \<open>index_ls_flatten\<close>); \<^verbatim>\<open>load_braintrust.py\<close> does the same when
  every record has the \<^verbatim>\<open>span_parents\<close> key (lemma \<open>index_bt_flatten\<close>).

  Claim C5 states this of every record set. In \<^verbatim>\<open>load_braintrust.py\<close> the deletion
  \<^verbatim>\<open>del row["span_parents"]\<close> is not guarded, so a record without the key raises \<^verbatim>\<open>KeyError\<close>
  where \<^verbatim>\<open>load_langsmith.py\<close>, which tests \<^verbatim>\<open>"span_parents" in row\<close> first, makes it a root.
  A run of \<^verbatim>\<open>load_braintrust.py --flatten\<close> on a trace file with this one record ends with
  the exception uncaught; the same run of \<^verbatim>\<open>load_langsmith.py\<close> replays the record as a root.
\<close>

theorem flatten_absent_parents_raise_bt:
  "index_bt True [mk_row ''X'' ''x'' Absent] = Inl KeyError
   \<and> index_ls True [mk_row ''X'' ''x'' Absent]
       = Inr ([mk_row ''X'' ''x'' Absent], Map.empty, [''X''])
   \<and> main_bt 0 env_absent args_flat
       = Some ([LoadDotenv, PathExists, Login, ReadTraceFile], Raised KeyError)
   \<and> main_ls 0 env_absent args_flat
       = Some ([LoadDotenv, PathExists, ReadTraceFile, InitSink,
                Emit (OpenRoot ''X'' ''Chat Pipeline''),
                Emit (Attach ''X'' JNull JNull (Some [])),
                Emit (CloseRoot ''X''), Emit Flush, Emit (IterationDone 1)], Completed)"
proof -
  have bt: "index_bt True [mk_row ''X'' ''x'' Absent] = Inl KeyError"
    by (simp add: index_bt_def index_row_def make_root_bt_def mk_row_def)
  have ls: "index_ls True [mk_row ''X'' ''x'' Absent]
       = Inr ([mk_row ''X'' ''x'' Absent], Map.empty, [''X''])"
    by (simp add: index_ls_def index_row_def make_root_ls_def mk_row_def)
  have rows: "load_rows (json_loads env_absent) (limit args_flat) (trace_file env_absent)
      = Inr ([Record (mk_row ''X'' ''x'' Absent)], [])"
    by (simp add: env_absent_def args_flat_def load_rows_def limit_reached_def
                  loads_example_def huge_line_neq)
  have st: "startup env_absent args_flat = ([LoadDotenv, PathExists], None)"
    by (simp add: startup_def env_absent_def args_flat_def validate_def)
  have fl: "flatten args_flat = True" "login_error env_absent = None"
    by (simp_all add: args_flat_def env_absent_def)
  have run: "replay_ls 0 args_flat Map.empty (build_tree [mk_row ''X'' ''x'' Absent]) [''X'']
      = Some (Inr [OpenRoot ''X'' ''Chat Pipeline'', Attach ''X'' JNull JNull (Some []),
                   CloseRoot ''X'', Flush, IterationDone 1])"
    by (simp add: replay_ls_def args_flat_def replay_root_ls_def build_tree_def mk_row_def
                  children_get_def ROOT_RUN_NAME_def batch_flush_def flush_due_def)
  show ?thesis
    by (simp add: bt ls main_bt_def main_ls_def st rows fl run)
qed

text \<open>
  Claim C10. On records that all carry the \<^verbatim>\<open>span_parents\<close> key (whatever it holds), the
  indexing loops of the two scripts compute the same thing for either value of \<^verbatim>\<open>--flatten\<close>:
  neither raises, and roots, \<^verbatim>\<open>children\<close> and the records as the loop leaves them are equal.
\<close>

theorem indexers_agree:
  assumes "\<forall>r\<in>set rows. span_parents r \<noteq> Absent"
  shows "index_bt flat rows = index_ls flat rows
       \<and> (\<exists>rows' ch roots. index_ls flat rows = Inr (rows', ch, roots))"
  using index_loop_present [OF assms, of flat "(Map.empty, [])"]
  by (auto simp: index_bt_def index_ls_def)

theorem indexers_agree_witness:
  "map span_parents chain_rows = [Null, Parents [''a''], Parents [''b'']]
   \<and> index_bt False chain_rows = index_ls False chain_rows
   \<and> index_bt True chain_rows = index_ls True chain_rows"
proof -
  have h: "\<forall>r\<in>set chain_rows. span_parents r \<noteq> Absent"
    by (simp add: chain_rows_def mk_row_def)
  have "map span_parents chain_rows = [Null, Parents [''a''], Parents [''b'']]"
    by (simp add: chain_rows_def mk_row_def)
  with indexers_agree [OF h, of False] indexers_agree [OF h, of True]
  show ?thesis by simp
qed

section \<open>Start of the scripts: properties\<close>

lemma validate_Some_iff:
  "(\<exists>msg. validate a = Some msg) \<longleftrightarrow>
     iterations a \<le> 0 \<or> (\<exists>l. limit a = Some l \<and> l \<le> 0) \<or> (\<exists>b. batch_size a = Some b \<and> b \<le> 0)"
  by (auto simp: validate_def split: option.splits)

text \<open>
  Claim C8 says that non-positive arguments are rejected before any I/O. Both scripts call
  \<^verbatim>\<open>load_dotenv()\<close> and test \<^verbatim>\<open>os.path.exists(TRACE_FILE)\<close> before they parse and check the
  arguments: with \<^verbatim>\<open>--iterations 0\<close> and no trace file the run ends on the file test with
  status 1 and the arguments are never checked; with the file in place the rejection (status
  2) comes after these two actions.
\<close>

theorem invalid_arguments_counterexample:
  "iterations args_zero = 0
   \<and> main_bt 0 env_missing args_zero = Some ([LoadDotenv, PathExists], Exit 1)
   \<and> main_ls 0 env_missing args_zero = Some ([LoadDotenv, PathExists], Exit 1)
   \<and> main_bt 0 env_example args_zero = Some ([LoadDotenv, PathExists], Exit 2)
   \<and> main_ls 0 env_example args_zero = Some ([LoadDotenv, PathExists], Exit 2)"
  by (simp add: main_bt_def main_ls_def startup_def validate_def env_missing_def env_example_def
                args_zero_def)

text \<open>
  Claim C8, amended. With a non-positive \<^verbatim>\<open>--iterations\<close>, \<^verbatim>\<open>--limit\<close> or \<^verbatim>\<open>--batch-size\<close>,
  whatever the bound on the recursion and the environment, a run of either script does
  exactly two things, \<^verbatim>\<open>load_dotenv()\<close> and the existence test of the trace file, and exits:
  with status 2 (the rejection by \<^verbatim>\<open>parser.error\<close>) when the file exists, with status 1 when
  it does not. There is no login, no read of the trace file and no contact with the backend.
\<close>

theorem invalid_arguments_rejected:
  assumes "iterations a \<le> 0 \<or> (\<exists>l. limit a = Some l \<and> l \<le> 0)
           \<or> (\<exists>b. batch_size a = Some b \<and> b \<le> 0)"
  shows "main_bt fuel e a
           = Some ([LoadDotenv, PathExists], if trace_file_exists e then Exit 2 else Exit 1)
       \<and> main_ls fuel e a
           = Some ([LoadDotenv, PathExists], if trace_file_exists e then Exit 2 else Exit 1)"
proof -
  from assms obtain msg where "validate a = Some msg"
    using validate_Some_iff [of a] by blast
  then show ?thesis
    by (simp add: main_bt_def main_ls_def startup_def)
qed

theorem invalid_arguments_rejected_witness:
  "iterations args_zero \<le> 0
   \<and> main_bt 5 env_example args_zero = Some ([LoadDotenv, PathExists], Exit 2)
   \<and> main_ls 5 env_example args_zero = Some ([LoadDotenv, PathExists], Exit 2)"
proof -
  have h: "iterations args_zero \<le> 0" by (simp add: args_zero_def)
  then have "iterations args_zero \<le> 0 \<or> (\<exists>l. limit args_zero = Some l \<and> l \<le> 0)
           \<or> (\<exists>b. batch_size args_zero = Some b \<and> b \<le> 0)" by simp
  from invalid_arguments_rejected [OF this, of 5 env_example] h
  show ?thesis by (simp add: env_example_def)
qed

section \<open>Replay engine: nesting and order\<close>

lemma log_child_run_outcome:
  "(log_child_run n p x ch tr = None \<and> log_child_span n p x ch tr = None)
   \<or> (\<exists>e evs evs'. log_child_run n p x ch tr = Some (Inl (e, evs))
          \<and> log_child_span n p x ch tr = Some (Inl (e, evs')))
   \<or> (\<exists>evs. log_child_run n p x ch tr = Some (Inr evs)
          \<and> log_child_span n p x ch tr = Some (Inr evs))"
  "(log_child_runs n p cs ch tr = None \<and> log_child_spans n p cs ch tr = None)
   \<or> (\<exists>e evs evs'. log_child_runs n p cs ch tr = Some (Inl (e, evs))
          \<and> log_child_spans n p cs ch tr = Some (Inl (e, evs')))
   \<or> (\<exists>evs. log_child_runs n p cs ch tr = Some (Inr evs)
          \<and> log_child_spans n p cs ch tr = Some (Inr evs))"
proof (induction n p x ch tr and n p cs ch tr rule: log_child_run_log_child_runs.induct)
  case (1 parent node_id ch tr)
  then show ?case by simp
next
  case (2 n parent node_id ch tr)
  show ?case
  proof (cases "tr node_id")
    case None
    then show ?thesis by simp
  next
    case (Some row)
    show ?thesis
    proof (cases "span_name row")
      case None
      with Some show ?thesis by simp
    next
      case nm: (Some nm)
      from "2.IH" [OF Some nm] show ?thesis
        by (elim disjE exE conjE) (simp_all add: Some nm)
    qed
  qed
next
  case (3 n parent ch tr)
  then show ?case by simp
next
  case (4 n parent child_id rest ch tr)
  from "4.IH"(1) show ?case
  proof (elim disjE exE conjE)
    assume "log_child_run n parent child_id ch tr = None"
      "log_child_span n parent child_id ch tr = None"
    then show ?thesis by simp
  next
    fix e evs evs'
    assume "log_child_run n parent child_id ch tr = Some (Inl (e, evs))"
      "log_child_span n parent child_id ch tr = Some (Inl (e, evs'))"
    then show ?thesis by simp
  next
    fix evs
    assume r: "log_child_run n parent child_id ch tr = Some (Inr evs)"
      and s: "log_child_span n parent child_id ch tr = Some (Inr evs)"
    from "4.IH"(2) [OF r refl] show ?thesis
      by (elim disjE exE conjE) (simp_all add: r s)
  qed
qed

lemma log_child_run_eq:
  "log_child_run n p x ch tr = Some (Inr evs) \<longleftrightarrow> log_child_span n p x ch tr = Some (Inr evs)"
  "log_child_runs n p cs ch tr = Some (Inr evs) \<longleftrightarrow> log_child_spans n p cs ch tr = Some (Inr evs)"
  "log_child_run n p x ch tr = None \<longleftrightarrow> log_child_span n p x ch tr = None"
  "log_child_runs n p cs ch tr = None \<longleftrightarrow> log_child_spans n p cs ch tr = None"
  using log_child_run_outcome(1) [of n p x ch tr] log_child_run_outcome(2) [of n p cs ch tr]
  by auto

lemma log_child_spans_segments:
  "log_child_spans n p cs ch tr = Some (Inr evs) \<Longrightarrow>
   \<exists>segs. evs = concat segs
        \<and> list_all2 (\<lambda>c seg. log_child_span n p c ch tr = Some (Inr seg)) cs segs"
proof (induction cs arbitrary: evs)
  case Nil
  then show ?case by simp
next
  case (Cons c cs)
  from Cons.prems obtain e1 e2 where
    c: "log_child_span n p c ch tr = Some (Inr e1)" and
    r: "log_child_spans n p cs ch tr = Some (Inr e2)" and
    evs: "evs = e1 @ e2"
    by (auto split: option.splits sum.splits)
  from Cons.IH [OF r] obtain segs where
    "e2 = concat segs" "list_all2 (\<lambda>c seg. log_child_span n p c ch tr = Some (Inr seg)) cs segs"
    by blast
  with c evs have "evs = concat (e1 # segs)
      \<and> list_all2 (\<lambda>c seg. log_child_span n p c ch tr = Some (Inr seg)) (c # cs) (e1 # segs)"
    by simp
  then show ?case by blast
qed

lemma log_child_span_unfold:
  assumes "log_child_span n p x ch tr = Some (Inr evs)"
  shows "\<exists>m row nm kids. n = Suc m \<and> tr x = Some row \<and> span_name row = Some nm
           \<and> log_child_spans m x (children_get ch (span_id row)) ch tr = Some (Inr kids)
           \<and> evs = OpenChild p x nm # Attach x (row_input row) (row_output row) None
                      # kids @ [CloseChild x]"
  using assms by (cases n) (auto split: option.splits sum.splits)

lemma well_nested_child:
  "log_child_span n p x ch tr = Some (Inr evs) \<Longrightarrow>
     well_nested (p # st) (evs @ rest) = well_nested (p # st) rest"
  "log_child_spans n p cs ch tr = Some (Inr evs) \<Longrightarrow>
     well_nested (p # st) (evs @ rest) = well_nested (p # st) rest"
proof (induction n p x ch tr and n p cs ch tr arbitrary: evs st rest and evs st rest
       rule: log_child_span_log_child_spans.induct)
  case (1 parent node_id ch tr)
  then show ?case by simp
next
  case (2 n parent node_id ch tr)
  from log_child_span_unfold [OF "2.prems"] obtain row nm kids where
    row: "tr node_id = Some row" "span_name row = Some nm" and
    kids: "log_child_spans n node_id (children_get ch (span_id row)) ch tr = Some (Inr kids)" and
    evs: "evs = OpenChild parent node_id nm # Attach node_id (row_input row) (row_output row) None
                  # kids @ [CloseChild node_id]"
    by auto
  from "2.IH" [OF row kids, where st = "parent # st" and rest = "CloseChild node_id # rest"]
  show ?case by (simp add: evs)
next
  case (3 n parent ch tr)
  then show ?case by simp
next
  case (4 n parent child_id rest' ch tr)
  from "4.prems" obtain e1 e2 where
    c: "log_child_span n parent child_id ch tr = Some (Inr e1)" and
    r: "log_child_spans n parent rest' ch tr = Some (Inr e2)" and
    evs: "evs = e1 @ e2"
    by (auto split: option.splits sum.splits)
  from "4.IH"(1) [OF c, where st = st and rest = "e2 @ rest"]
       "4.IH"(2) [OF c _ r, where st = st and rest = rest]
  show ?case by (simp add: evs)
qed

lemma marks_child:
  "log_child_span n p x ch tr = Some (Inr evs) \<Longrightarrow> marks evs = []"
  "log_child_spans n p cs ch tr = Some (Inr evs) \<Longrightarrow> marks evs = []"
  by (induction n p x ch tr and n p cs ch tr arbitrary: evs and evs
       rule: log_child_span_log_child_spans.induct)
     (auto simp: marks_def split: option.splits sum.splits)

lemma chain_index:
  "index_bt False chain_rows = Inr (chain_indexed, chain_children, [''A''])"
  by (simp add: index_bt_def index_row_def make_root_bt_def chain_rows_def chain_indexed_def
                chain_children_def mk_row_def add_child_def children_get_def)

lemma chain_tree_simps:
  "build_tree chain_indexed ''A'' = Some (mk_row ''A'' ''a'' Absent)"
  "build_tree chain_indexed ''B'' = Some (mk_row ''B'' ''b'' (Parents [''a'']))"
  "build_tree chain_indexed ''C'' = Some (mk_row ''C'' ''c'' (Parents [''b'']))"
  by (simp_all add: build_tree_def chain_indexed_def mk_row_def)

lemma chain_children_simps:
  "children_get chain_children ''a'' = [''B'']"
  "children_get chain_children ''b'' = [''C'']"
  "children_get chain_children ''c'' = []"
  by (simp_all add: chain_children_def children_get_def)

lemma chain_replay_ls:
  "replay_root_ls 2 chain_children (build_tree chain_indexed) ''A'' = Some (Inr (chain_events []))"
  by (simp add: replay_root_ls_def chain_tree_simps chain_children_simps mk_row_def
                chain_events_def ROOT_RUN_NAME_def numeral_2_eq_2)

lemma chain_replay_bt:
  "map_option (map_sum id fst) (replay_root_bt 2 chain_children (build_tree chain_indexed) ''A'')
     = Some (Inr (chain_events [(''model'', JStr ''gpt-4o'')]))"
  by (simp add: replay_root_bt_def chain_tree_simps chain_children_simps mk_row_def
                chain_events_def ROOT_SPAN_NAME_def DEFAULT_MODEL_def numeral_2_eq_2 Let_def)


lemma replay_root_bt_unfold:
  assumes "replay_root_bt fuel ch tr root = Some (Inr (evs, tr'))"
  shows "\<exists>row md kids. tr root = Some row \<and> metadata row = Some md
           \<and> tr' = tr(root \<mapsto> row\<lparr>metadata := Some (dict_set md ''model'' (JStr DEFAULT_MODEL))\<rparr>)
           \<and> log_child_spans fuel root (children_get ch (span_id row)) ch tr' = Some (Inr kids)
           \<and> evs = OpenRoot root ROOT_SPAN_NAME
                     # Attach root (row_input row) (row_output row)
                         (Some (dict_set md ''model'' (JStr DEFAULT_MODEL)))
                     # kids @ [CloseRoot root]"
  using assms
  by (auto simp: replay_root_bt_def Let_def split: option.splits sum.splits)

lemma replay_root_ls_unfold:
  assumes "replay_root_ls fuel ch tr root = Some (Inr evs)"
  shows "\<exists>row md kids. tr root = Some row \<and> metadata row = Some md
           \<and> log_child_runs fuel root (children_get ch (span_id row)) ch tr = Some (Inr kids)
           \<and> evs = OpenRoot root ROOT_RUN_NAME
                     # Attach root (row_input row) (row_output row) (Some md)
                     # kids @ [CloseRoot root]"
  using assms
  by (auto simp: replay_root_ls_def split: option.splits sum.splits)

lemma well_nested_root:
  assumes "log_child_spans fuel root cs ch tr = Some (Inr kids)"
  shows "well_nested [] (OpenRoot root nm # Attach root i o' m # kids @ [CloseRoot root])"
  using well_nested_child(2) [OF assms, of "[]" "[CloseRoot root]"] by simp

text \<open>
  Claim C4. Replaying one root, in either script, gives a well-nested trace: every unit opens
  under the unit that is its parent and closes as the innermost open unit, so a child's
  open/close pair lies inside its parent's. The trace of a unit is its opening, its payload,
  the complete traces of its children one after the other in the order of its \<^verbatim>\<open>children\<close>
  list, and its closing: depth-first, opened in pre-order and closed in post-order. For the
  chain A, B, C the indexing gives roots \<open>[A]\<close> and children \<open>a: [B], b: [C]\<close>, and the replay
  of A gives open A, open B, open C, close C, close B, close A (\<open>chain_events\<close>).
\<close>

theorem emission_nested_depth_first:
  "(replay_root_bt fuel ch tr root = Some (Inr (evs, tr')) \<longrightarrow>
      well_nested [] evs
    \<and> (\<exists>row md segs. tr root = Some row
         \<and> evs = OpenRoot root ROOT_SPAN_NAME # Attach root (row_input row) (row_output row) md
                   # concat segs @ [CloseRoot root]
         \<and> list_all2 (\<lambda>c seg. log_child_span fuel root c ch tr' = Some (Inr seg))
              (children_get ch (span_id row)) segs))
   \<and> (replay_root_ls fuel ch tr root = Some (Inr evs) \<longrightarrow>
      well_nested [] evs
    \<and> (\<exists>row md segs. tr root = Some row
         \<and> evs = OpenRoot root ROOT_RUN_NAME # Attach root (row_input row) (row_output row) md
                   # concat segs @ [CloseRoot root]
         \<and> list_all2 (\<lambda>c seg. log_child_run fuel root c ch tr = Some (Inr seg))
              (children_get ch (span_id row)) segs))
   \<and> (log_child_span fuel p x ch tr = Some (Inr evs) \<or> log_child_run fuel p x ch tr = Some (Inr evs) \<longrightarrow>
      (\<exists>n row nm segs. fuel = Suc n \<and> tr x = Some row \<and> span_name row = Some nm
         \<and> evs = OpenChild p x nm # Attach x (row_input row) (row_output row) None
                   # concat segs @ [CloseChild x]
         \<and> list_all2 (\<lambda>c seg. log_child_span n x c ch tr = Some (Inr seg)
                              \<and> log_child_run n x c ch tr = Some (Inr seg))
              (children_get ch (span_id row)) segs))
   \<and> index_bt False chain_rows = Inr (chain_indexed, chain_children, [''A''])
   \<and> index_ls False chain_rows = Inr (chain_indexed, chain_children, [''A''])
   \<and> map_option (map_sum id fst)
        (replay_root_bt 2 chain_children (build_tree chain_indexed) ''A'')
       = Some (Inr (chain_events [(''model'', JStr ''gpt-4o'')]))
   \<and> replay_root_ls 2 chain_children (build_tree chain_indexed) ''A''
       = Some (Inr (chain_events []))"
proof (intro conjI impI)
  assume a: "replay_root_bt fuel ch tr root = Some (Inr (evs, tr'))"
  from replay_root_bt_unfold [OF a] obtain row md kids where
    row: "tr root = Some row" and
    kids: "log_child_spans fuel root (children_get ch (span_id row)) ch tr' = Some (Inr kids)" and
    evs: "evs = OpenRoot root ROOT_SPAN_NAME
                 # Attach root (row_input row) (row_output row)
                     (Some (dict_set md ''model'' (JStr DEFAULT_MODEL)))
                 # kids @ [CloseRoot root]"
    by blast
  show "well_nested [] evs" unfolding evs by (rule well_nested_root [OF kids])
  from log_child_spans_segments [OF kids] evs row
  show "\<exists>row md segs. tr root = Some row
         \<and> evs = OpenRoot root ROOT_SPAN_NAME # Attach root (row_input row) (row_output row) md
                   # concat segs @ [CloseRoot root]
         \<and> list_all2 (\<lambda>c seg. log_child_span fuel root c ch tr' = Some (Inr seg))
              (children_get ch (span_id row)) segs"
    by blast
next
  assume a: "replay_root_ls fuel ch tr root = Some (Inr evs)"
  from replay_root_ls_unfold [OF a] obtain row md kids where
    row: "tr root = Some row" and
    kids: "log_child_spans fuel root (children_get ch (span_id row)) ch tr = Some (Inr kids)" and
    evs: "evs = OpenRoot root ROOT_RUN_NAME
                 # Attach root (row_input row) (row_output row) (Some md)
                 # kids @ [CloseRoot root]"
    by (auto simp: log_child_run_eq)
  show "well_nested [] evs" unfolding evs by (rule well_nested_root [OF kids])
  from log_child_spans_segments [OF kids] evs row
  show "\<exists>row md segs. tr root = Some row
         \<and> evs = OpenRoot root ROOT_RUN_NAME # Attach root (row_input row) (row_output row) md
                   # concat segs @ [CloseRoot root]
         \<and> list_all2 (\<lambda>c seg. log_child_run fuel root c ch tr = Some (Inr seg))
              (children_get ch (span_id row)) segs"
    unfolding log_child_run_eq by blast
next
  assume "log_child_span fuel p x ch tr = Some (Inr evs)
          \<or> log_child_run fuel p x ch tr = Some (Inr evs)"
  then have a: "log_child_span fuel p x ch tr = Some (Inr evs)"
    by (simp add: log_child_run_eq)
  from log_child_span_unfold [OF a] obtain n row nm kids where
    n: "fuel = Suc n" "tr x = Some row" "span_name row = Some nm" and
    kids: "log_child_spans n x (children_get ch (span_id row)) ch tr = Some (Inr kids)" and
    evs: "evs = OpenChild p x nm # Attach x (row_input row) (row_output row) None
                 # kids @ [CloseChild x]"
    by blast
  from log_child_spans_segments [OF kids] n evs
  show "\<exists>n row nm segs. fuel = Suc n \<and> tr x = Some row \<and> span_name row = Some nm
         \<and> evs = OpenChild p x nm # Attach x (row_input row) (row_output row) None
                   # concat segs @ [CloseChild x]
         \<and> list_all2 (\<lambda>c seg. log_child_span n x c ch tr = Some (Inr seg)
                              \<and> log_child_run n x c ch tr = Some (Inr seg))
              (children_get ch (span_id row)) segs"
    unfolding log_child_run_eq by auto
qed (simp_all only: chain_index chain_replay_bt chain_replay_ls index_hierarchy_same [symmetric])


theorem emission_nested_depth_first_witness:
  "replay_root_bt 2 chain_children (build_tree chain_indexed) ''A''
     = Some (Inr (chain_events [(''model'', JStr ''gpt-4o'')],
                  (build_tree chain_indexed)
                    (''A'' \<mapsto> (mk_row ''A'' ''a'' Absent)
                                \<lparr>metadata := Some [(''model'', JStr ''gpt-4o'')]\<rparr>)))
   \<and> well_nested [] (chain_events [(''model'', JStr ''gpt-4o'')])
   \<and> replay_root_ls 2 chain_children (build_tree chain_indexed) ''A''
       = Some (Inr (chain_events []))
   \<and> well_nested [] (chain_events [])
   \<and> log_child_span 1 ''B'' ''C'' chain_children (build_tree chain_indexed)
       = Some (Inr [OpenChild ''B'' ''C'' ''C'', Attach ''C'' JNull JNull None, CloseChild ''C''])
   \<and> build_tree chain_indexed ''C'' = Some (mk_row ''C'' ''c'' (Parents [''b'']))"
proof -
  let ?tr = "build_tree chain_indexed"
  let ?tr' = "?tr(''A'' \<mapsto> (mk_row ''A'' ''a'' Absent)
                                \<lparr>metadata := Some [(''model'', JStr ''gpt-4o'')]\<rparr>)"
  have bt: "replay_root_bt 2 chain_children ?tr ''A''
     = Some (Inr (chain_events [(''model'', JStr ''gpt-4o'')], ?tr'))"
    by (simp add: replay_root_bt_def chain_tree_simps chain_children_simps mk_row_def
                  chain_events_def ROOT_SPAN_NAME_def DEFAULT_MODEL_def numeral_2_eq_2 Let_def)
  have c: "log_child_span 1 ''B'' ''C'' chain_children ?tr
       = Some (Inr [OpenChild ''B'' ''C'' ''C'', Attach ''C'' JNull JNull None, CloseChild ''C''])"
    by (simp add: chain_tree_simps chain_children_simps mk_row_def)
  from emission_nested_depth_first
         [of 2 chain_children ?tr "''A''" "chain_events [(''model'', JStr ''gpt-4o'')]" ?tr']
       bt
  have w1: "well_nested [] (chain_events [(''model'', JStr ''gpt-4o'')])" by blast
  from emission_nested_depth_first [of 2 chain_children ?tr "''A''" "chain_events []"]
       chain_replay_ls
  have w2: "well_nested [] (chain_events [])" by blast
  from emission_nested_depth_first
         [of 1 chain_children ?tr _ "[OpenChild ''B'' ''C'' ''C'', Attach ''C'' JNull JNull None,
            CloseChild ''C'']" _ "''B''" "''C''"] c
  have "\<exists>row. ?tr ''C'' = Some row" by blast
  with bt w1 w2 c chain_replay_ls show ?thesis by (simp add: chain_tree_simps)
qed

section \<open>Replay engine: termination\<close>

lemma log_child_spans_mono:
  assumes "\<And>p x r. log_child_span n p x ch tr = Some r \<Longrightarrow> log_child_span m p x ch tr = Some r"
  shows "log_child_spans n p cs ch tr = Some r \<Longrightarrow> log_child_spans m p cs ch tr = Some r"
proof (induction cs arbitrary: r)
  case Nil
  then show ?case by simp
next
  case (Cons c cs)
  from Cons.prems show ?case
    by (auto split: option.splits sum.splits dest!: assms Cons.IH)
qed

lemma log_child_span_Suc:
  "log_child_span n p x ch tr = Some r \<Longrightarrow> log_child_span (Suc n) p x ch tr = Some r"
proof (induction n arbitrary: p x r)
  case 0
  then show ?case by simp
next
  case (Suc n)
  show ?case
  proof (cases "tr x")
    case None
    with Suc.prems show ?thesis by simp
  next
    case (Some row)
    show ?thesis
    proof (cases "span_name row")
      case None
      with Some Suc.prems show ?thesis by simp
    next
      case nm: (Some nm)
      show ?thesis
      proof (cases "log_child_spans n x (children_get ch (span_id row)) ch tr")
        case None
        with Some nm Suc.prems show ?thesis by simp
      next
        case kids: (Some r')
        from log_child_spans_mono [of n ch tr "Suc n", OF Suc.IH kids]
        have "log_child_spans (Suc n) x (children_get ch (span_id row)) ch tr = Some r'" .
        with kids Some nm Suc.prems show ?thesis by simp
      qed
    qed
  qed
qed

lemma log_child_span_fuel:
  assumes "n \<le> m" and "log_child_span n p x ch tr = Some r"
  shows "log_child_span m p x ch tr = Some r"
  using assms
proof (induction m)
  case 0
  then show ?case by simp
next
  case (Suc m)
  show ?case
  proof (cases "n = Suc m")
    case True
    with Suc.prems show ?thesis by simp
  next
    case False
    with Suc.prems have "n \<le> m" by simp
    from Suc.IH [OF this Suc.prems(2)] show ?thesis by (rule log_child_span_Suc)
  qed
qed

lemma log_child_spans_fuel:
  assumes "n \<le> m" and "log_child_spans n p cs ch tr = Some r"
  shows "log_child_spans m p cs ch tr = Some r"
  using log_child_spans_mono [of n ch tr m, OF log_child_span_fuel [OF assms(1)] assms(2)] .


lemma log_child_spans_all:
  "(\<And>c. c \<in> set cs \<Longrightarrow> log_child_span n p c ch tr \<noteq> None) \<Longrightarrow>
   log_child_spans n p cs ch tr \<noteq> None"
  by (induction cs) (auto split: option.splits sum.splits)

lemma uniform_fuel:
  assumes "finite A"
    and "\<And>x. x \<in> A \<Longrightarrow> \<exists>n. Q n x"
    and "\<And>x n m. Q n x \<Longrightarrow> n \<le> m \<Longrightarrow> Q m x"
  shows "\<exists>N::nat. \<forall>x\<in>A. Q N x"
  using assms(1,2)
proof (induction A)
  case empty
  then show ?case by simp
next
  case (insert a A)
  then obtain N where N: "\<forall>x\<in>A. Q N x" by auto
  from insert.prems obtain n where n: "Q n a" by auto
  have "\<forall>x\<in>insert a A. Q (max n N) x"
    using N n assms(3) by (metis insert_iff max.cobounded1 max.cobounded2)
  then show ?case ..
qed

lemma returns_within_mono:
  "returns_within ch E n x \<Longrightarrow> n \<le> m \<Longrightarrow> returns_within ch E m x"
  unfolding returns_within_def
  by (metis log_child_span_fuel not_Some_eq)

lemma returns_within_step:
  assumes "\<forall>y. (x, y) \<in> E \<longrightarrow> returns_within ch E N y"
  shows "returns_within ch E (Suc N) x"
  unfolding returns_within_def
proof (intro allI impI)
  fix tr p
  assume sub: "edges ch tr \<subseteq> E"
  show "log_child_span (Suc N) p x ch tr \<noteq> None"
  proof (cases "tr x")
    case None
    then show ?thesis by simp
  next
    case (Some row)
    have "log_child_spans N x (children_get ch (span_id row)) ch tr \<noteq> None"
    proof (rule log_child_spans_all)
      fix c assume "c \<in> set (children_get ch (span_id row))"
      with Some have "(x, c) \<in> edges ch tr" by (auto simp: edges_def)
      with sub assms have "returns_within ch E N c" by blast
      with sub show "log_child_span N x c ch tr \<noteq> None" by (simp add: returns_within_def)
    qed
    with Some show ?thesis by (auto split: option.splits sum.splits)
  qed
qed

lemma returns_within_each:
  assumes "finite E" and "acyclic E"
  shows "\<exists>n. returns_within ch E n x"
proof -
  from assms have "wf (E\<inverse>)" by (rule finite_acyclic_wf_converse)
  then show ?thesis
  proof (induction x rule: wf_induct_rule)
    case (less x)
    have fin: "finite (E `` {x})" using assms(1) by (metis finite_Image)
    have "\<exists>N. \<forall>y\<in>E `` {x}. returns_within ch E N y"
    proof (rule uniform_fuel [OF fin])
      fix y assume "y \<in> E `` {x}"
      then have "(y, x) \<in> E\<inverse>" by simp
      then show "\<exists>n. returns_within ch E n y" by (rule less.IH)
    qed (rule returns_within_mono)
    then obtain N where "\<forall>y. (x, y) \<in> E \<longrightarrow> returns_within ch E N y" by auto
    then have "returns_within ch E (Suc N) x" by (rule returns_within_step)
    then show ?case ..
  qed
qed

lemma returns_within_all:
  assumes "finite E" and "acyclic E"
  shows "\<exists>N. \<forall>x. returns_within ch E N x"
proof -
  have "finite (Domain E)" using assms(1) by (rule finite_Domain)
  then have "\<exists>N. \<forall>x\<in>Domain E. returns_within ch E N x"
    using returns_within_each [OF assms] returns_within_mono by (rule uniform_fuel)
  then obtain N where N: "\<forall>x\<in>Domain E. returns_within ch E N x" ..
  have "returns_within ch E (Suc N) x" for x
  proof (cases "x \<in> Domain E")
    case True
    with N show ?thesis using returns_within_mono by (metis le_SucI order_refl)
  next
    case False
    then have "\<forall>y. (x, y) \<in> E \<longrightarrow> returns_within ch E N y" by auto
    then show ?thesis by (rule returns_within_step)
  qed
  then show ?thesis by blast
qed

lemma finite_dom_build_tree: "finite (dom (build_tree rows))"
proof -
  have "finite (dom (fold (\<lambda>r t. t(row_id r \<mapsto> r)) rows t))" if "finite (dom t)" for t :: tree
    using that by (induction rows arbitrary: t) simp_all
  then show ?thesis by (simp add: build_tree_def)
qed

lemma finite_edges:
  assumes "finite (dom tr)"
  shows "finite (edges ch tr)"
proof -
  have "edges ch tr \<subseteq> (\<Union>x\<in>dom tr. {x} \<times> set (children_get ch (span_id (the (tr x)))))"
    by (auto simp: edges_def)
  moreover have "finite (\<Union>x\<in>dom tr. {x} \<times> set (children_get ch (span_id (the (tr x)))))"
    using assms by simp
  ultimately show ?thesis by (rule finite_subset)
qed


lemma replay_root_bt_edges:
  assumes "replay_root_bt fuel ch tr root = Some (Inr (evs, tr'))"
  shows "edges ch tr' = edges ch tr"
proof -
  from assms obtain row md where
    row: "tr root = Some row" and
    tr': "tr' = tr(root \<mapsto> row\<lparr>metadata := Some md\<rparr>)"
    by (auto simp: replay_root_bt_def Let_def split: option.splits sum.splits)
  show ?thesis
    unfolding edges_def tr' using row by (auto split: if_splits)
qed

lemma replay_root_bt_returns:
  assumes N: "\<forall>x. returns_within ch E N x" and sub: "edges ch tr \<subseteq> E"
  shows "replay_root_bt N ch tr root \<noteq> None"
proof (cases "tr root")
  case None
  then show ?thesis by (simp add: replay_root_bt_def)
next
  case (Some row)
  show ?thesis
  proof (cases "metadata row")
    case None
    with Some show ?thesis by (simp add: replay_root_bt_def)
  next
    case md: (Some md)
    let ?tr' = "tr(root \<mapsto> row\<lparr>metadata := Some (dict_set md ''model'' (JStr DEFAULT_MODEL))\<rparr>)"
    have "edges ch ?tr' = edges ch tr"
      unfolding edges_def using Some by (auto split: if_splits)
    with sub have sub': "edges ch ?tr' \<subseteq> E" by simp
    have "log_child_spans N root (children_get ch (span_id row)) ch ?tr' \<noteq> None"
      using N sub' by (intro log_child_spans_all) (simp add: returns_within_def)
    with Some md show ?thesis
      by (auto simp: replay_root_bt_def Let_def split: option.splits sum.splits)
  qed
qed

lemma replay_root_ls_returns:
  assumes N: "\<forall>x. returns_within ch E N x" and sub: "edges ch tr \<subseteq> E"
  shows "replay_root_ls N ch tr root \<noteq> None"
proof (cases "tr root")
  case None
  then show ?thesis by (simp add: replay_root_ls_def)
next
  case (Some row)
  have "log_child_spans N root (children_get ch (span_id row)) ch tr \<noteq> None"
    using N sub by (intro log_child_spans_all) (simp add: returns_within_def)
  then have "log_child_runs N root (children_get ch (span_id row)) ch tr \<noteq> None"
    by (simp add: log_child_run_eq)
  then obtain r where "log_child_runs N root (children_get ch (span_id row)) ch tr = Some r"
    by blast
  with Some show ?thesis
    by (cases "metadata row"; cases r) (auto simp: replay_root_ls_def)
qed

lemma replay_roots_bt_returns:
  assumes N: "\<forall>x. returns_within ch E N x"
  shows "edges ch tr \<subseteq> E \<Longrightarrow> replay_roots_bt N bs ch idx roots tr \<noteq> None"
proof (induction roots arbitrary: idx tr)
  case Nil
  then show ?case by simp
next
  case (Cons root rest)
  from replay_root_bt_returns [OF N Cons.prems] obtain r where
    r: "replay_root_bt N ch tr root = Some r" by blast
  show ?case
  proof (cases r)
    case (Inl e)
    with r show ?thesis by simp
  next
    case (Inr res)
    obtain evs tr' where res: "res = (evs, tr')" by (cases res)
    from replay_root_bt_edges [OF r [unfolded Inr res]] Cons.prems
    have "edges ch tr' \<subseteq> E" by simp
    from Cons.IH [OF this, of "Suc idx"] r Inr res show ?thesis
      by (auto split: option.splits sum.splits)
  qed
qed

lemma replay_roots_bt_edges:
  "replay_roots_bt fuel bs ch idx roots tr = Some (Inr (evs, tr')) \<Longrightarrow> edges ch tr' = edges ch tr"
proof (induction roots arbitrary: idx tr evs)
  case Nil
  then show ?case by simp
next
  case (Cons root rest)
  from Cons.prems obtain e1 tr1 e2 where
    a: "replay_root_bt fuel ch tr root = Some (Inr (e1, tr1))" and
    b: "replay_roots_bt fuel bs ch (Suc idx) rest tr1 = Some (Inr (e2, tr'))"
    by (auto split: option.splits sum.splits)
  from Cons.IH [OF b] replay_root_bt_edges [OF a] show ?case by simp
qed

lemma iterations_bt_returns:
  assumes N: "\<forall>x. returns_within ch E N x"
  shows "edges ch tr \<subseteq> E \<Longrightarrow> iterations_bt N bs ch roots i k tr \<noteq> None"
proof (induction k arbitrary: i tr)
  case 0
  then show ?case by simp
next
  case (Suc k)
  from replay_roots_bt_returns [OF N Suc.prems] obtain r where
    r: "replay_roots_bt N bs ch 0 roots tr = Some r" by blast
  show ?case
  proof (cases r)
    case (Inl e)
    with r show ?thesis by simp
  next
    case (Inr res)
    obtain evs tr' where res: "res = (evs, tr')" by (cases res)
    from replay_roots_bt_edges [OF r [unfolded Inr res]] Suc.prems
    have "edges ch tr' \<subseteq> E" by simp
    from Suc.IH [OF this, of "Suc i"] r Inr res show ?thesis
      by (auto split: option.splits sum.splits)
  qed
qed

lemma replay_roots_ls_returns:
  assumes N: "\<forall>x. returns_within ch E N x" and sub: "edges ch tr \<subseteq> E"
  shows "replay_roots_ls N bs ch tr idx roots \<noteq> None"
proof (induction roots arbitrary: idx)
  case Nil
  then show ?case by simp
next
  case (Cons root rest)
  from replay_root_ls_returns [OF N sub] Cons.IH [of "Suc idx"] show ?case
    by (auto split: option.splits sum.splits)
qed

lemma iterations_ls_returns:
  assumes N: "\<forall>x. returns_within ch E N x" and sub: "edges ch tr \<subseteq> E"
  shows "iterations_ls N bs ch tr roots i k \<noteq> None"
proof (induction k arbitrary: i)
  case 0
  then show ?case by simp
next
  case (Suc k)
  from replay_roots_ls_returns [OF N sub] Suc.IH [of "Suc i"] show ?case
    by (auto split: option.splits sum.splits)
qed

lemma loop_index:
  "index_bt False loop_rows = Inr (loop_indexed, loop_children, [''R''])"
  "index_ls False loop_rows = Inr (loop_indexed, loop_children, [''R''])"
  by (simp_all add: index_bt_def index_ls_def index_row_def make_root_bt_def make_root_ls_def
        loop_rows_def loop_indexed_def loop_children_def mk_row_def add_child_def
        children_get_def fun_upd_twist)

lemma loop_never_returns:
  assumes "tr ''A'' = Some (mk_row ''A'' ''a'' (Parents [''r'', ''b'']))"
    and "tr ''B'' = Some (mk_row ''B'' ''b'' (Parents [''a'']))"
  shows "log_child_span n p ''A'' loop_children tr = None
       \<and> log_child_span n p ''B'' loop_children tr = None"
proof (induction n arbitrary: p)
  case 0
  then show ?case by simp
next
  case (Suc n)
  then show ?case
    by (simp add: assms mk_row_def loop_children_def children_get_def)
qed

lemma cyclic_emission_never_returns:
  "replay_root_bt n loop_children (build_tree loop_indexed) ''R'' = None"
  "replay_root_ls n loop_children (build_tree loop_indexed) ''R'' = None"
proof -
  let ?tr = "build_tree loop_indexed"
  have R: "?tr ''R'' = Some (mk_row ''R'' ''r'' Absent)"
    and A: "?tr ''A'' = Some (mk_row ''A'' ''a'' (Parents [''r'', ''b'']))"
    and B: "?tr ''B'' = Some (mk_row ''B'' ''b'' (Parents [''a'']))"
    by (simp_all add: build_tree_def loop_indexed_def mk_row_def)
  have kids: "children_get loop_children ''r'' = [''A'']"
    by (simp add: loop_children_def children_get_def)
  have "log_child_span n p ''A'' loop_children (?tr(''R'' \<mapsto> r)) = None" for p r
    using loop_never_returns [of "?tr(''R'' \<mapsto> r)" n p] A B by simp
  then show "replay_root_bt n loop_children ?tr ''R'' = None"
    by (simp add: replay_root_bt_def R kids mk_row_def Let_def)
  have "log_child_span n p ''A'' loop_children ?tr = None" for p
    using loop_never_returns [OF A B, of n p] by simp
  then have "log_child_run n p ''A'' loop_children ?tr = None" for p
    by (simp add: log_child_run_eq)
  then show "replay_root_ls n loop_children ?tr ''R'' = None"
    by (simp add: replay_root_ls_def R kids mk_row_def)
qed

text \<open>
  Claim C9. When the edges from a record id to the ids registered under its span id form no
  cycle, the recursive child emission returns: there is a depth \<open>N\<close> such that with any bound
  from \<open>N\<close> on, \<^verbatim>\<open>log_child_span\<close> and \<^verbatim>\<open>log_child_run\<close> return at every node, the replay of
  every root returns, and so does the whole replay loop of either script, for all arguments
  and root lists. (The result may be an exception; it is never the exhausted bound.) The
  scripts keep no set of visited nodes: on the cyclic records \<open>loop_rows\<close> the replay of the
  root returns for no bound (lemma \<open>cyclic_emission_never_returns\<close>).
\<close>

theorem acyclic_emission_returns:
  assumes "acyclic (edges ch (build_tree rows))"
  shows "\<exists>N. \<forall>fuel\<ge>N.
           (\<forall>p x. log_child_span fuel p x ch (build_tree rows) \<noteq> None
                \<and> log_child_run fuel p x ch (build_tree rows) \<noteq> None)
         \<and> (\<forall>root. replay_root_bt fuel ch (build_tree rows) root \<noteq> None
                \<and> replay_root_ls fuel ch (build_tree rows) root \<noteq> None)
         \<and> (\<forall>a roots. replay_bt fuel a ch roots (build_tree rows) \<noteq> None
                \<and> replay_ls fuel a ch (build_tree rows) roots \<noteq> None)"
proof -
  let ?tr = "build_tree rows"
  let ?E = "edges ch ?tr"
  have "finite ?E" by (rule finite_edges [OF finite_dom_build_tree])
  from returns_within_all [OF this assms] obtain N where
    N: "\<forall>x. returns_within ch ?E N x" by blast
  have "(\<forall>p x. log_child_span fuel p x ch ?tr \<noteq> None \<and> log_child_run fuel p x ch ?tr \<noteq> None)
      \<and> (\<forall>root. replay_root_bt fuel ch ?tr root \<noteq> None \<and> replay_root_ls fuel ch ?tr root \<noteq> None)
      \<and> (\<forall>a roots. replay_bt fuel a ch roots ?tr \<noteq> None \<and> replay_ls fuel a ch ?tr roots \<noteq> None)"
    if "N \<le> fuel" for fuel
  proof -
    from N that have F: "\<forall>x. returns_within ch ?E fuel x"
      using returns_within_mono by blast
    have "log_child_span fuel p x ch ?tr \<noteq> None" for p x
      using F by (simp add: returns_within_def)
    moreover have "replay_bt fuel a ch roots ?tr \<noteq> None" for a roots
      using iterations_bt_returns [OF F, of ?tr "batch_size a" roots 0 "nat (iterations a)"]
      by (auto simp: replay_bt_def split: option.splits sum.splits)
    moreover have "replay_ls fuel a ch ?tr roots \<noteq> None" for a roots
      using iterations_ls_returns [OF F, of ?tr] by (simp add: replay_ls_def)
    ultimately show ?thesis
      using replay_root_bt_returns [OF F, of ?tr] replay_root_ls_returns [OF F, of ?tr]
      by (simp add: log_child_run_eq)
  qed
  then show ?thesis by blast
qed


lemma chain_edges_acyclic: "acyclic (edges chain_children (build_tree chain_indexed))"
proof (rule acyclicI_order [where f = "\<lambda>s. if s = ''A'' then 2 else if s = ''B'' then 1 else (0::nat)"])
  fix a b
  assume "(a, b) \<in> edges chain_children (build_tree chain_indexed)"
  then show "(if b = ''A'' then 2 else if b = ''B'' then 1 else (0::nat))
           < (if a = ''A'' then 2 else if a = ''B'' then 1 else 0)"
    by (auto simp: edges_def build_tree_def chain_indexed_def chain_children_def children_get_def
                   mk_row_def split: if_splits)
qed

theorem acyclic_emission_returns_witness:
  "acyclic (edges chain_children (build_tree chain_indexed))
   \<and> (\<exists>fuel. replay_root_bt fuel chain_children (build_tree chain_indexed) ''A'' \<noteq> None
            \<and> replay_root_ls fuel chain_children (build_tree chain_indexed) ''A'' \<noteq> None
            \<and> log_child_span fuel ''A'' ''B'' chain_children (build_tree chain_indexed) \<noteq> None)"
proof -
  from acyclic_emission_returns [OF chain_edges_acyclic] obtain N where
    "\<forall>fuel\<ge>N.
        (\<forall>p x. log_child_span fuel p x chain_children (build_tree chain_indexed) \<noteq> None
              \<and> log_child_run fuel p x chain_children (build_tree chain_indexed) \<noteq> None)
      \<and> (\<forall>root. replay_root_bt fuel chain_children (build_tree chain_indexed) root \<noteq> None
              \<and> replay_root_ls fuel chain_children (build_tree chain_indexed) root \<noteq> None)
      \<and> (\<forall>a roots. replay_bt fuel a chain_children roots (build_tree chain_indexed) \<noteq> None
              \<and> replay_ls fuel a chain_children (build_tree chain_indexed) roots \<noteq> None)"
    by blast
  then have "replay_root_bt N chain_children (build_tree chain_indexed) ''A'' \<noteq> None
           \<and> replay_root_ls N chain_children (build_tree chain_indexed) ''A'' \<noteq> None
           \<and> log_child_span N ''A'' ''B'' chain_children (build_tree chain_indexed) \<noteq> None"
    by blast
  with chain_edges_acyclic show ?thesis by blast
qed

section \<open>Replay engine: flush cadence\<close>

lemma flush_due_dvd:
  assumes "1 \<le> B"
  shows "flush_due (Some B) k \<longleftrightarrow> nat B dvd k + 1"
proof -
  have "(int k + 1) mod B = 0 \<longleftrightarrow> B dvd int (k + 1)"
    by (simp add: mod_eq_0_iff_dvd add.commute)
  also have "\<dots> \<longleftrightarrow> int (nat B) dvd int (k + 1)" using assms by simp
  also have "\<dots> \<longleftrightarrow> nat B dvd k + 1" by (rule int_dvd_int_iff)
  finally show ?thesis using assms by (simp add: flush_due_def)
qed

lemma marks_append: "marks (xs @ ys) = marks xs @ marks ys"
  by (simp add: marks_def)

lemma marks_root_bt:
  assumes "replay_root_bt fuel ch tr root = Some (Inr (evs, tr'))"
  shows "marks evs = [CloseRoot root]"
proof -
  from replay_root_bt_unfold [OF assms] obtain row md kids where
    "tr root = Some row" and "metadata row = Some md" and
    "tr' = tr(root \<mapsto> row\<lparr>metadata := Some (dict_set md ''model'' (JStr DEFAULT_MODEL))\<rparr>)" and
    kids: "log_child_spans fuel root (children_get ch (span_id row)) ch tr' = Some (Inr kids)" and
    evs: "evs = OpenRoot root ROOT_SPAN_NAME
                 # Attach root (row_input row) (row_output row)
                     (Some (dict_set md ''model'' (JStr DEFAULT_MODEL)))
                 # kids @ [CloseRoot root]"
    by blast
  from marks_child(2) [OF kids] have "filter is_mark kids = []" by (simp add: marks_def)
  then show ?thesis by (simp add: evs marks_def)
qed

lemma marks_root_ls:
  assumes "replay_root_ls fuel ch tr root = Some (Inr evs)"
  shows "marks evs = [CloseRoot root]"
proof -
  from replay_root_ls_unfold [OF assms] obtain row md kids where
    "tr root = Some row" and "metadata row = Some md" and
    kids: "log_child_runs fuel root (children_get ch (span_id row)) ch tr = Some (Inr kids)" and
    evs: "evs = OpenRoot root ROOT_RUN_NAME
                 # Attach root (row_input row) (row_output row) (Some md)
                 # kids @ [CloseRoot root]"
    by blast
  from marks_child(2) [OF kids [unfolded log_child_run_eq]]
  have "filter is_mark kids = []" by (simp add: marks_def)
  then show ?thesis by (simp add: evs marks_def)
qed

lemma cadence_from_Nil: "cadence_from bs idx [] = []"
  by (simp add: cadence_from_def)

lemma cadence_from_Cons:
  "cadence_from bs idx (root # rest)
     = CloseRoot root # batch_flush bs idx @ cadence_from bs (Suc idx) rest"
proof -
  have "[0..<length (root # rest)] = 0 # map Suc [0..<length rest]"
    by (simp add: upt_conv_Cons map_Suc_upt del: upt_Suc)
  then show ?thesis by (simp add: cadence_from_def o_def del: upt_Suc)
qed

lemma marks_batch_flush: "marks (batch_flush bs idx) = batch_flush bs idx"
  by (simp add: marks_def batch_flush_def)

lemma marks_roots_bt:
  "replay_roots_bt fuel bs ch idx roots tr = Some (Inr (evs, tr')) \<Longrightarrow>
   marks evs = cadence_from bs idx roots"
proof (induction roots arbitrary: idx tr evs)
  case Nil
  then show ?case by (simp add: cadence_from_Nil marks_def)
next
  case (Cons root rest)
  from Cons.prems obtain e1 tr1 e2 where
    a: "replay_root_bt fuel ch tr root = Some (Inr (e1, tr1))" and
    b: "replay_roots_bt fuel bs ch (Suc idx) rest tr1 = Some (Inr (e2, tr'))" and
    evs: "evs = e1 @ batch_flush bs idx @ e2"
    by (auto split: option.splits sum.splits)
  show ?case
    by (simp add: evs marks_append marks_root_bt [OF a] Cons.IH [OF b] marks_batch_flush
                  cadence_from_Cons)
qed

lemma marks_roots_ls:
  "replay_roots_ls fuel bs ch tr idx roots = Some (Inr evs) \<Longrightarrow>
   marks evs = cadence_from bs idx roots"
proof (induction roots arbitrary: idx evs)
  case Nil
  then show ?case by (simp add: cadence_from_Nil marks_def)
next
  case (Cons root rest)
  from Cons.prems obtain e1 e2 where
    a: "replay_root_ls fuel ch tr root = Some (Inr e1)" and
    b: "replay_roots_ls fuel bs ch tr (Suc idx) rest = Some (Inr e2)" and
    evs: "evs = e1 @ batch_flush bs idx @ e2"
    by (auto split: option.splits sum.splits)
  show ?case
    by (simp add: evs marks_append marks_root_ls [OF a] Cons.IH [OF b] marks_batch_flush
                  cadence_from_Cons)
qed

lemma upt_shift: "[i..<i + Suc k] = i # [Suc i..<Suc i + k]"
  by (simp add: upt_conv_Cons del: upt_Suc)

lemma marks_iterations_bt:
  "iterations_bt fuel bs ch roots i k tr = Some (Inr (evs, tr')) \<Longrightarrow>
   marks evs = concat (map (\<lambda>j. cadence_from bs 0 roots @ [IterationDone (j + 1)]) [i..<i + k])"
proof (induction k arbitrary: i tr evs)
  case 0
  then show ?case by (simp add: marks_def)
next
  case (Suc k)
  from Suc.prems obtain e1 tr1 e2 where
    a: "replay_roots_bt fuel bs ch 0 roots tr = Some (Inr (e1, tr1))" and
    b: "iterations_bt fuel bs ch roots (Suc i) k tr1 = Some (Inr (e2, tr'))" and
    evs: "evs = e1 @ [IterationDone (i + 1)] @ e2"
    by (auto split: option.splits sum.splits)
  have "marks [IterationDone (i + 1)] = [IterationDone (i + 1)]" by (simp add: marks_def)
  then show ?case
    by (simp only: evs marks_append marks_roots_bt [OF a] Suc.IH [OF b] upt_shift
                   list.map concat.simps append_assoc)
qed

lemma marks_iterations_ls:
  "iterations_ls fuel bs ch tr roots i k = Some (Inr evs) \<Longrightarrow>
   marks evs
     = concat (map (\<lambda>j. cadence_from bs 0 roots @ [Flush, IterationDone (j + 1)]) [i..<i + k])"
proof (induction k arbitrary: i evs)
  case 0
  then show ?case by (simp add: marks_def)
next
  case (Suc k)
  from Suc.prems obtain e1 e2 where
    a: "replay_roots_ls fuel bs ch tr 0 roots = Some (Inr e1)" and
    b: "iterations_ls fuel bs ch tr roots (Suc i) k = Some (Inr e2)" and
    evs: "evs = e1 @ [Flush, IterationDone (i + 1)] @ e2"
    by (auto split: option.splits sum.splits)
  have "marks [Flush, IterationDone (i + 1)] = [Flush, IterationDone (i + 1)]"
    by (simp add: marks_def)
  then show ?case
    by (simp only: evs marks_append marks_roots_ls [OF a] Suc.IH [OF b] upt_shift
                   list.map concat.simps append_assoc)
qed

lemma cadence_from_spec:
  assumes "1 \<le> B"
  shows "cadence_from (Some B) 0 roots = spec_cadence (nat B) roots"
  by (simp add: cadence_from_def spec_cadence_def batch_flush_def flush_due_dvd [OF assms])

lemma spec_cadence_snoc:
  "spec_cadence B (roots @ [r])
     = spec_cadence B roots @ CloseRoot r # (if B dvd length roots + 1 then [Flush] else [])"
proof -
  have eq: "map (\<lambda>k. CloseRoot ((roots @ [r]) ! k) # (if B dvd Suc k then [Flush] else []))
          [0..<length roots]
      = map (\<lambda>k. CloseRoot (roots ! k) # (if B dvd Suc k then [Flush] else []))
          [0..<length roots]"
    by (rule map_cong) (auto simp: nth_append)
  show ?thesis by (simp add: spec_cadence_def eq)
qed

lemma flushes_spec_cadence:
  assumes "0 < B"
  shows "length (filter (\<lambda>e. e = Flush) (spec_cadence B roots)) = length roots div B"
proof (induction roots rule: rev_induct)
  case Nil
  then show ?case by (simp add: spec_cadence_def)
next
  case (snoc r roots)
  have "Suc (length roots) div B
      = (if B dvd Suc (length roots) then Suc (length roots div B) else length roots div B)"
    by (simp add: div_Suc mod_eq_0_iff_dvd)
  with snoc show ?case by (simp add: spec_cadence_snoc)
qed

lemma events_of_result:
  assumes "map_option (map_sum id fst) x = Some (Inr e)"
  shows "\<exists>t. x = Some (Inr (e, t))"
proof (cases x)
  case None
  with assms show ?thesis by simp
next
  case (Some r)
  with assms show ?thesis by (cases r) auto
qed

text \<open>
  Claim C1 says that a flush is requested after each iteration. In \<^verbatim>\<open>load_braintrust.py\<close> the
  only unconditional flush stands after the loop over the iterations: a run on the chain
  example with two iterations and batch size 2 (one root, so no flush of the governor) logs
  the end of the first iteration and goes on to the second without a flush; the single flush
  is the last event.
\<close>

theorem flush_after_each_iteration_counterexample:
  "batch_size args_two = Some 2 \<and> iterations args_two = 2
   \<and> main_bt 2 env_example args_two
       = Some ([LoadDotenv, PathExists, Login, ReadTraceFile, InitSink]
               @ map Emit (chain_events [(''model'', JStr ''gpt-4o'')] @ [IterationDone 1]
                           @ chain_events [(''model'', JStr ''gpt-4o'')] @ [IterationDone 2]
                           @ [Flush]),
               Completed)"
proof -
  have rows: "load_rows (json_loads env_example) (limit args_two) (trace_file env_example)
      = Inr (map Record chain_rows, [])"
    by (simp add: env_example_def args_two_def load_rows_def limit_reached_def
                  loads_example_def chain_rows_def huge_line_neq)
  have it: "map_option (map_sum id fst)
              (replay_bt 2 args_two chain_children [''A''] (build_tree chain_indexed))
      = Some (Inr (chain_events [(''model'', JStr ''gpt-4o'')] @ [IterationDone 1]
                   @ chain_events [(''model'', JStr ''gpt-4o'')] @ [IterationDone 2]
                   @ [Flush]))"
    by (simp add: replay_bt_def args_two_def replay_root_bt_def chain_tree_simps
                  chain_children_simps mk_row_def chain_events_def ROOT_SPAN_NAME_def
                  DEFAULT_MODEL_def numeral_2_eq_2 Let_def batch_flush_def flush_due_def)
  from events_of_result [OF it] obtain tr' where "replay_bt 2 args_two chain_children [''A''] (build_tree chain_indexed)
      = Some (Inr (chain_events [(''model'', JStr ''gpt-4o'')] @ [IterationDone 1]
                   @ chain_events [(''model'', JStr ''gpt-4o'')] @ [IterationDone 2]
                   @ [Flush], tr'))"
    by (rule exE)
  moreover have "startup env_example args_two = ([LoadDotenv, PathExists], None)"
    by (simp add: startup_def env_example_def args_two_def validate_def)
  moreover have "login_error env_example = None" by (simp add: env_example_def)
  moreover have "flatten args_two = False" by (simp add: args_two_def)
  ultimately have "main_bt 2 env_example args_two
       = Some ([LoadDotenv, PathExists, Login, ReadTraceFile, InitSink]
               @ map Emit (chain_events [(''model'', JStr ''gpt-4o'')] @ [IterationDone 1]
                           @ chain_events [(''model'', JStr ''gpt-4o'')] @ [IterationDone 2]
                           @ [Flush]),
               Completed)"
    by (simp add: main_bt_def rows tree_rows_map_Record chain_index)
  then show ?thesis by (simp add: args_two_def)
qed

text \<open>
  Claim C1, amended. With an accepted batch size \<open>B\<close>, and for a replay that raises nothing,
  the closings of roots, flushes and iteration log lines come in this order. In each
  iteration of either script, every root is followed by a flush exactly when the number of
  roots replayed so far in this iteration is a multiple of \<open>B\<close> (\<open>spec_cadence\<close>, counted anew
  in each iteration), which makes \<open>K div B\<close> such flushes for \<open>K\<close> roots. \<^verbatim>\<open>load_langsmith.py\<close>
  then requests one more flush at the end of every iteration, before its log line;
  \<^verbatim>\<open>load_braintrust.py\<close> requests one more flush once, after the last iteration.
\<close>

theorem flush_cadence:
  assumes "validate a = None" and "batch_size a = Some B"
  shows "(replay_ls fuel a ch tr roots = Some (Inr evs) \<longrightarrow>
            marks evs
              = concat (map (\<lambda>i. spec_cadence (nat B) roots @ [Flush, IterationDone (i + 1)])
                          [0..<nat (iterations a)]))
       \<and> (replay_bt fuel a ch roots tr = Some (Inr (evs, tr')) \<longrightarrow>
            marks evs
              = concat (map (\<lambda>i. spec_cadence (nat B) roots @ [IterationDone (i + 1)])
                          [0..<nat (iterations a)]) @ [Flush])
       \<and> length (filter (\<lambda>e. e = Flush) (spec_cadence (nat B) roots)) = length roots div nat B"
proof -
  from assms have B: "1 \<le> B" by (simp add: validate_None_iff)
  then have B': "0 < nat B" by simp
  note c = cadence_from_spec [OF B]
  have ls: "marks evs
      = concat (map (\<lambda>i. spec_cadence (nat B) roots @ [Flush, IterationDone (i + 1)])
                  [0..<nat (iterations a)])"
    if "replay_ls fuel a ch tr roots = Some (Inr evs)"
    using marks_iterations_ls [of fuel "Some B" ch tr roots 0 "nat (iterations a)" evs] that
    by (simp add: replay_ls_def assms(2) c)
  have bt: "marks evs
      = concat (map (\<lambda>i. spec_cadence (nat B) roots @ [IterationDone (i + 1)])
                  [0..<nat (iterations a)]) @ [Flush]"
    if r: "replay_bt fuel a ch roots tr = Some (Inr (evs, tr'))"
  proof -
    from r obtain e1 where
      a: "iterations_bt fuel (Some B) ch roots 0 (nat (iterations a)) tr = Some (Inr (e1, tr'))" and
      evs: "evs = e1 @ [Flush]"
      by (auto simp: replay_bt_def assms(2) split: option.splits sum.splits)
    have "marks [Flush] = [Flush]" by (simp add: marks_def)
    with marks_iterations_bt [OF a] show ?thesis by (simp add: evs marks_append c)
  qed
  from ls bt flushes_spec_cadence [OF B', of roots] show ?thesis by blast
qed


theorem flush_cadence_witness:
  "validate args_two = None \<and> batch_size args_two = Some 2
   \<and> replay_ls 0 args_two Map.empty (build_tree chain_indexed) [''A'', ''B'', ''C'']
       = Some (Inr (flat_iteration [] @ [Flush, IterationDone 1]
                    @ flat_iteration [] @ [Flush, IterationDone 2]))
   \<and> marks (flat_iteration [] @ [Flush, IterationDone 1]
             @ flat_iteration [] @ [Flush, IterationDone 2])
       = [CloseRoot ''A'', CloseRoot ''B'', Flush, CloseRoot ''C'', Flush, IterationDone 1,
          CloseRoot ''A'', CloseRoot ''B'', Flush, CloseRoot ''C'', Flush, IterationDone 2]
   \<and> map_option (map_sum id fst)
        (replay_bt 0 args_two Map.empty [''A'', ''B'', ''C''] (build_tree chain_indexed))
       = Some (Inr (flat_iteration [(''model'', JStr ''gpt-4o'')] @ [IterationDone 1]
                    @ flat_iteration [(''model'', JStr ''gpt-4o'')] @ [IterationDone 2, Flush]))
   \<and> marks (flat_iteration [(''model'', JStr ''gpt-4o'')] @ [IterationDone 1]
             @ flat_iteration [(''model'', JStr ''gpt-4o'')] @ [IterationDone 2, Flush])
       = [CloseRoot ''A'', CloseRoot ''B'', Flush, CloseRoot ''C'', IterationDone 1,
          CloseRoot ''A'', CloseRoot ''B'', Flush, CloseRoot ''C'', IterationDone 2, Flush]
   \<and> length (filter (\<lambda>e. e = Flush) (spec_cadence 2 [''A'', ''B'', ''C''])) = 1"
proof -
  let ?tr = "build_tree chain_indexed"
  let ?ls = "flat_iteration [] @ [Flush, IterationDone 1]
             @ flat_iteration [] @ [Flush, IterationDone 2]"
  let ?bt = "flat_iteration [(''model'', JStr ''gpt-4o'')] @ [IterationDone 1]
             @ flat_iteration [(''model'', JStr ''gpt-4o'')] @ [IterationDone 2, Flush]"
  have v: "validate args_two = None" by (simp add: validate_def args_two_def)
  have b: "batch_size args_two = Some 2" by (simp add: args_two_def)
  have ls: "replay_ls 0 args_two Map.empty ?tr [''A'', ''B'', ''C''] = Some (Inr ?ls)"
    by (simp add: replay_ls_def args_two_def replay_root_ls_def chain_tree_simps
                  children_get_def mk_row_def flat_iteration_def root_events_def
                  ROOT_RUN_NAME_def numeral_2_eq_2 batch_flush_def flush_due_def)
  have bt: "map_option (map_sum id fst)
              (replay_bt 0 args_two Map.empty [''A'', ''B'', ''C''] ?tr) = Some (Inr ?bt)"
    by (simp add: replay_bt_def args_two_def replay_root_bt_def chain_tree_simps
                  children_get_def mk_row_def flat_iteration_def root_events_def
                  ROOT_SPAN_NAME_def DEFAULT_MODEL_def numeral_2_eq_2 Let_def
                  batch_flush_def flush_due_def)
  from events_of_result [OF bt] obtain tr' where
    bt': "replay_bt 0 args_two Map.empty [''A'', ''B'', ''C''] ?tr = Some (Inr (?bt, tr'))"
    by (rule exE)
  have three: "[0..<3] = [0, Suc 0, 2]" by (simp add: upt_rec numeral_3_eq_3)
  have cad: "spec_cadence 2 [''A'', ''B'', ''C'']
      = [CloseRoot ''A'', CloseRoot ''B'', Flush, CloseRoot ''C'']"
    by (simp add: spec_cadence_def three)
  have its: "nat (iterations args_two) = 2" by (simp add: args_two_def)
  have two: "[0..<2] = [0, Suc 0]" by (simp add: upt_rec numeral_2_eq_2)
  note t = flush_cadence [OF v b, of 0 Map.empty ?tr "[''A'', ''B'', ''C'']"]
  from t [of ?ls] ls have "marks ?ls
      = [CloseRoot ''A'', CloseRoot ''B'', Flush, CloseRoot ''C'', Flush, IterationDone 1,
         CloseRoot ''A'', CloseRoot ''B'', Flush, CloseRoot ''C'', Flush, IterationDone 2]"
    by (simp add: cad its two)
  moreover from t [of ?bt tr'] bt' have "marks ?bt
      = [CloseRoot ''A'', CloseRoot ''B'', Flush, CloseRoot ''C'', IterationDone 1,
         CloseRoot ''A'', CloseRoot ''B'', Flush, CloseRoot ''C'', IterationDone 2, Flush]"
    by (simp add: cad its two)
  moreover from t [of ?ls] have
    "length (filter (\<lambda>e. e = Flush) (spec_cadence 2 [''A'', ''B'', ''C''])) = 1"
    by simp
  ultimately show ?thesis using v b ls bt by simp
qed

section \<open>Replay engine: the model tag\<close>

lemma attached_append: "attached (xs @ ys) = attached xs @ attached ys"
  by (induction xs rule: attached.induct) simp_all

lemma dict_get_set: "dict_get (dict_set md k v) k = Some v"
  by (induction md) auto

lemma dict_set_idem: "dict_set (dict_set md k v) k v = dict_set md k v"
  by (induction md) auto

lemma tag_model_idem: "tag_model (tag_model r) = tag_model r"
  by (cases "metadata r") (simp_all add: tag_model_def dict_set_idem)

lemma tagged_tagged: "tagged S (tagged T tr) = tagged (S \<union> T) tr"
  by (rule ext) (auto simp: tagged_def tag_model_idem option.map_comp o_def)

lemma tagged_empty: "tagged {} tr = tr"
  by (simp add: tagged_def)

lemma attached_child:
  "log_child_span n p x ch tr = Some (Inr evs) \<Longrightarrow> attached evs = []"
  "log_child_spans n p cs ch tr = Some (Inr evs) \<Longrightarrow> attached evs = []"
  by (induction n p x ch tr and n p cs ch tr arbitrary: evs and evs
       rule: log_child_span_log_child_spans.induct)
     (auto simp: attached_append split: option.splits sum.splits)

lemma replay_root_bt_tags:
  assumes "replay_root_bt fuel ch tr root = Some (Inr (evs, tr'))"
  shows "\<exists>row md. tr root = Some row \<and> metadata row = Some md
           \<and> take 2 evs = [OpenRoot root ROOT_SPAN_NAME,
                            Attach root (row_input row) (row_output row)
                              (Some (dict_set md ''model'' (JStr DEFAULT_MODEL)))]
           \<and> attached evs = [(root, dict_set md ''model'' (JStr DEFAULT_MODEL))]
           \<and> tr' = tr(root \<mapsto> tag_model row)"
proof -
  from replay_root_bt_unfold [OF assms] obtain row md kids where
    row: "tr root = Some row" and md: "metadata row = Some md" and
    tr': "tr' = tr(root \<mapsto> row\<lparr>metadata := Some (dict_set md ''model'' (JStr DEFAULT_MODEL))\<rparr>)" and
    kids: "log_child_spans fuel root (children_get ch (span_id row)) ch tr' = Some (Inr kids)" and
    evs: "evs = OpenRoot root ROOT_SPAN_NAME
                 # Attach root (row_input row) (row_output row)
                     (Some (dict_set md ''model'' (JStr DEFAULT_MODEL)))
                 # kids @ [CloseRoot root]"
    by blast
  have "tag_model row = row\<lparr>metadata := Some (dict_set md ''model'' (JStr DEFAULT_MODEL))\<rparr>"
    by (simp add: tag_model_def md)
  with row md tr' evs attached_child(2) [OF kids] show ?thesis
    by (simp add: attached_append)
qed

lemma replay_root_bt_tagged:
  assumes "replay_root_bt fuel ch tr root = Some (Inr (evs, tr'))"
  shows "tr' = tagged {root} tr"
proof -
  from replay_root_bt_tags [OF assms] obtain row where
    "tr root = Some row" "tr' = tr(root \<mapsto> tag_model row)" by blast
  then show ?thesis by (auto simp: tagged_def)
qed

lemma replay_roots_bt_tagged:
  "replay_roots_bt fuel bs ch idx roots tr = Some (Inr (evs, tr')) \<Longrightarrow>
   tr' = tagged (set roots) tr"
proof (induction roots arbitrary: idx tr evs)
  case Nil
  then show ?case by (simp add: tagged_empty)
next
  case (Cons root rest)
  from Cons.prems obtain e1 tr1 e2 where
    a: "replay_root_bt fuel ch tr root = Some (Inr (e1, tr1))" and
    b: "replay_roots_bt fuel bs ch (Suc idx) rest tr1 = Some (Inr (e2, tr'))"
    by (auto split: option.splits sum.splits)
  from Cons.IH [OF b] replay_root_bt_tagged [OF a]
  show ?case by (simp add: tagged_tagged Un_commute)
qed

lemma iterations_bt_tagged:
  "iterations_bt fuel bs ch roots i k tr = Some (Inr (evs, tr')) \<Longrightarrow>
   tr' = (if k = 0 then tr else tagged (set roots) tr)"
proof (induction k arbitrary: i tr evs)
  case 0
  then show ?case by simp
next
  case (Suc k)
  from Suc.prems obtain e1 tr1 e2 where
    a: "replay_roots_bt fuel bs ch 0 roots tr = Some (Inr (e1, tr1))" and
    b: "iterations_bt fuel bs ch roots (Suc i) k tr1 = Some (Inr (e2, tr'))"
    by (auto split: option.splits sum.splits)
  from Suc.IH [OF b] replay_roots_bt_tagged [OF a]
  show ?case by (simp add: tagged_tagged)
qed

lemma replay_bt_tagged:
  assumes "replay_bt fuel a ch roots tr = Some (Inr (evs, tr'))"
  shows "tr' = (if iterations a < 1 then tr else tagged (set roots) tr)"
proof -
  from assms obtain e1 where
    "iterations_bt fuel (batch_size a) ch roots 0 (nat (iterations a)) tr = Some (Inr (e1, tr'))"
    by (auto simp: replay_bt_def split: option.splits sum.splits)
  from iterations_bt_tagged [OF this] show ?thesis by auto
qed

lemma tags_roots_only_append:
  "tags_roots_only roots (xs @ ys) \<longleftrightarrow> tags_roots_only roots xs \<and> tags_roots_only roots ys"
  by (simp add: tags_roots_only_def attached_append)

lemma tags_roots_only_mono:
  "tags_roots_only roots evs \<Longrightarrow> set roots \<subseteq> set roots' \<Longrightarrow> tags_roots_only roots' evs"
  by (auto simp: tags_roots_only_def list_all_iff)

lemma replay_roots_bt_attached:
  "replay_roots_bt fuel bs ch idx roots tr = Some (Inr (evs, tr')) \<Longrightarrow>
   tags_roots_only roots evs"
proof (induction roots arbitrary: idx tr evs)
  case Nil
  then show ?case by (simp add: tags_roots_only_def)
next
  case (Cons root rest)
  from Cons.prems obtain e1 tr1 e2 where
    a: "replay_root_bt fuel ch tr root = Some (Inr (e1, tr1))" and
    b: "replay_roots_bt fuel bs ch (Suc idx) rest tr1 = Some (Inr (e2, tr'))" and
    evs: "evs = e1 @ batch_flush bs idx @ e2"
    by (auto split: option.splits sum.splits)
  from replay_root_bt_tags [OF a] have "tags_roots_only (root # rest) e1"
    by (auto simp: tags_roots_only_def dict_get_set)
  moreover have "tags_roots_only (root # rest) e2"
    using Cons.IH [OF b] by (rule tags_roots_only_mono) auto
  moreover have "tags_roots_only (root # rest) (batch_flush bs idx)"
    by (simp add: tags_roots_only_def batch_flush_def)
  ultimately show ?case unfolding evs tags_roots_only_append by blast
qed

lemma iterations_bt_attached:
  "iterations_bt fuel bs ch roots i k tr = Some (Inr (evs, tr')) \<Longrightarrow>
   tags_roots_only roots evs"
proof (induction k arbitrary: i tr evs)
  case 0
  then show ?case by (simp add: tags_roots_only_def)
next
  case (Suc k)
  from Suc.prems obtain e1 tr1 e2 where
    a: "replay_roots_bt fuel bs ch 0 roots tr = Some (Inr (e1, tr1))" and
    b: "iterations_bt fuel bs ch roots (Suc i) k tr1 = Some (Inr (e2, tr'))" and
    evs: "evs = e1 @ [IterationDone (i + 1)] @ e2"
    by (auto split: option.splits sum.splits)
  have "tags_roots_only roots [IterationDone (i + 1)]" by (simp add: tags_roots_only_def)
  with replay_roots_bt_attached [OF a] Suc.IH [OF b] show ?case
    unfolding evs tags_roots_only_append by blast
qed

lemma replay_bt_attached:
  assumes "replay_bt fuel a ch roots tr = Some (Inr (evs, tr'))"
  shows "tags_roots_only roots evs"
proof -
  from assms obtain e1 where
    a: "iterations_bt fuel (batch_size a) ch roots 0 (nat (iterations a)) tr = Some (Inr (e1, tr'))"
    and evs: "evs = e1 @ [Flush]"
    by (auto simp: replay_bt_def split: option.splits sum.splits)
  have "tags_roots_only roots [Flush]" by (simp add: tags_roots_only_def)
  with iterations_bt_attached [OF a] show ?thesis
    unfolding evs tags_roots_only_append by blast
qed

lemma build_tree_lookup:
  assumes "distinct (map row_id rows)" and "r \<in> set rows"
  shows "build_tree rows (row_id r) = Some r"
proof -
  have other: "fold (\<lambda>r t. t(row_id r \<mapsto> r)) xs t k = t k" if "k \<notin> row_id ` set xs"
    for xs k and t :: tree
    using that by (induction xs arbitrary: t) auto
  have "fold (\<lambda>r t. t(row_id r \<mapsto> r)) rows t (row_id r) = Some r" for t :: tree
    using assms
  proof (induction rows arbitrary: t)
    case Nil
    then show ?case by simp
  next
    case (Cons x xs)
    show ?case
    proof (cases "r \<in> set xs")
      case True
      with Cons show ?thesis by simp
    next
      case False
      with Cons.prems have rx: "r = x" and "row_id x \<notin> row_id ` set xs" by auto
      from other [OF this(2), of "t(row_id x \<mapsto> x)"]
      have "fold (\<lambda>r t. t(row_id r \<mapsto> r)) xs (t(row_id x \<mapsto> x)) (row_id x) = Some x"
        by (simp only: fun_upd_same)
      then show ?thesis unfolding rx by (simp only: fold_simps)
    qed
  qed
  then show ?thesis by (simp add: build_tree_def)
qed

text \<open>
  Claim C2 says that the model tag is injected into the metadata of every root replayed.
  \<^verbatim>\<open>load_langsmith.py\<close> has no such step: a run on the chain example builds the root run with
  the metadata of the record as parsed, here the empty dictionary, which has no
  \<^verbatim>\<open>model\<close> key.
\<close>

theorem no_model_tag_in_langsmith_counterexample:
  "main_ls 2 env_example args_unlimited
     = Some ([LoadDotenv, PathExists, ReadTraceFile, InitSink]
             @ map Emit (chain_events [] @ [Flush, IterationDone 1]), Completed)
   \<and> attached (chain_events []) = [(''A'', [])]
   \<and> dict_get [] ''model'' = None"
proof -
  have rows: "load_rows (json_loads env_example) (limit args_unlimited) (trace_file env_example)
      = Inr (map Record chain_rows, [])"
    by (simp add: env_example_def args_unlimited_def load_rows_def limit_reached_def
                  loads_example_def chain_rows_def huge_line_neq)
  have it: "replay_ls 2 args_unlimited chain_children (build_tree chain_indexed) [''A'']
      = Some (Inr (chain_events [] @ [Flush, IterationDone 1]))"
    by (simp add: replay_ls_def args_unlimited_def chain_replay_ls batch_flush_def flush_due_def)
  have "startup env_example args_unlimited = ([LoadDotenv, PathExists], None)"
    by (simp add: startup_def env_example_def args_unlimited_def validate_def)
  moreover have "flatten args_unlimited = False" by (simp add: args_unlimited_def)
  ultimately have "main_ls 2 env_example args_unlimited
     = Some ([LoadDotenv, PathExists, ReadTraceFile, InitSink]
             @ map Emit (chain_events [] @ [Flush, IterationDone 1]), Completed)"
    by (simp add: main_ls_def rows tree_rows_map_Record chain_index index_hierarchy_same [symmetric] it)
  then show ?thesis by (simp add: chain_events_def)
qed

text \<open>
  Claim C2, amended. In \<^verbatim>\<open>load_braintrust.py\<close>, the replay of a root sets \<^verbatim>\<open>model\<close> to
  \<^verbatim>\<open>gpt-4o\<close> in the metadata of the root's record in \<^verbatim>\<open>tree\<close> and attaches the metadata so
  tagged right after opening the root unit; no other event of the replay of that root
  carries metadata. Over a whole replay every attachment of metadata is for a root and
  tagged, and \<^verbatim>\<open>tree\<close> changes at the ids in \<^verbatim>\<open>roots\<close> only, where the record gets the tag. So
  with unique ids, as the data model requires, a record that declares parents is in
  \<^verbatim>\<open>tree\<close> after the replay exactly as it was parsed. In \<^verbatim>\<open>load_langsmith.py\<close> the replay of
  a root attaches the metadata of the record as stored, without a tag, and writes to no
  record at all (its replay functions return no tree).
\<close>

theorem model_tag_on_braintrust_roots:
  "(replay_root_bt fuel ch tr root = Some (Inr (evs, tr')) \<longrightarrow>
      (\<exists>row md. tr root = Some row \<and> metadata row = Some md
         \<and> take 2 evs = [OpenRoot root ROOT_SPAN_NAME,
                          Attach root (row_input row) (row_output row)
                            (Some (dict_set md ''model'' (JStr DEFAULT_MODEL)))]
         \<and> attached evs = [(root, dict_set md ''model'' (JStr DEFAULT_MODEL))]
         \<and> dict_get (dict_set md ''model'' (JStr DEFAULT_MODEL)) ''model''
             = Some (JStr ''gpt-4o'')
         \<and> tr' = tr(root \<mapsto> tag_model row)))
   \<and> (replay_bt fuel a ch roots tr = Some (Inr (evs, tr')) \<longrightarrow>
        tags_roots_only roots evs
      \<and> (\<forall>k. tr' k = (if k \<in> set roots \<and> 1 \<le> iterations a
                        then map_option tag_model (tr k) else tr k)))
   \<and> (index_bt False rows = Inr (rows', ch, roots) \<and> distinct (map row_id rows)
        \<and> r \<in> set rows \<and> parents_of r \<noteq> []
        \<and> replay_bt fuel a ch roots (build_tree rows') = Some (Inr (evs, tr')) \<longrightarrow>
        tr' (row_id r) = Some r)
   \<and> (replay_root_ls fuel ch tr root = Some (Inr evs) \<longrightarrow>
        (\<exists>row md. tr root = Some row \<and> metadata row = Some md
           \<and> attached evs = [(root, md)]))"
proof (intro conjI impI)
  assume "replay_root_bt fuel ch tr root = Some (Inr (evs, tr'))"
  from replay_root_bt_tags [OF this]
  show "\<exists>row md. tr root = Some row \<and> metadata row = Some md
         \<and> take 2 evs = [OpenRoot root ROOT_SPAN_NAME,
                          Attach root (row_input row) (row_output row)
                            (Some (dict_set md ''model'' (JStr DEFAULT_MODEL)))]
         \<and> attached evs = [(root, dict_set md ''model'' (JStr DEFAULT_MODEL))]
         \<and> dict_get (dict_set md ''model'' (JStr DEFAULT_MODEL)) ''model''
             = Some (JStr ''gpt-4o'')
         \<and> tr' = tr(root \<mapsto> tag_model row)"
    by (auto simp: dict_get_set DEFAULT_MODEL_def)
next
  assume a: "replay_bt fuel a ch roots tr = Some (Inr (evs, tr'))"
  show "tags_roots_only roots evs" by (rule replay_bt_attached [OF a])
  from replay_bt_tagged [OF a]
  show "\<forall>k. tr' k = (if k \<in> set roots \<and> 1 \<le> iterations a
                        then map_option tag_model (tr k) else tr k)"
    by (auto simp: tagged_def)
next
  assume h: "index_bt False rows = Inr (rows', ch, roots) \<and> distinct (map row_id rows)
        \<and> r \<in> set rows \<and> parents_of r \<noteq> []
        \<and> replay_bt fuel a ch roots (build_tree rows') = Some (Inr (evs, tr'))"
  then have ix: "index_bt False rows = Inr (rows', ch, roots)"
    and d: "distinct (map row_id rows)" and r: "r \<in> set rows" and p: "parents_of r \<noteq> []"
    and rp: "replay_bt fuel a ch roots (build_tree rows') = Some (Inr (evs, tr'))"
    by simp_all
  from ix have "index_loop (index_row make_root_bt False) rows (Map.empty, [])
      = Inr (rows', ch, roots)"
    by (simp add: index_bt_def)
  from index_loop_hierarchy [OF this]
  have rows': "rows' = map (\<lambda>r. if parents_of r = [] then r\<lparr>span_parents := Absent\<rparr> else r) rows"
    by simp
  have ids: "map row_id rows' = map row_id rows" by (simp add: rows' o_def if_distrib cong: if_cong)
  from r p have "r \<in> set rows'" by (force simp: rows')
  with d ids have look: "build_tree rows' (row_id r) = Some r"
    by (simp add: build_tree_lookup)
  from index_hierarchy_placement(1) [OF ix d r] p have "row_id r \<notin> set roots" by simp
  with replay_bt_tagged [OF rp] look show "tr' (row_id r) = Some r"
    by (auto simp: tagged_def)
next
  assume a: "replay_root_ls fuel ch tr root = Some (Inr evs)"
  from replay_root_ls_unfold [OF a] obtain row md kids where
    row: "tr root = Some row" and md: "metadata row = Some md" and
    kids: "log_child_runs fuel root (children_get ch (span_id row)) ch tr = Some (Inr kids)" and
    evs: "evs = OpenRoot root ROOT_RUN_NAME
                 # Attach root (row_input row) (row_output row) (Some md)
                 # kids @ [CloseRoot root]"
    by blast
  from attached_child(2) [OF kids [unfolded log_child_run_eq]] row md
  show "\<exists>row md. tr root = Some row \<and> metadata row = Some md \<and> attached evs = [(root, md)]"
    by (simp add: evs attached_append)
qed


theorem model_tag_on_braintrust_roots_witness:
  "map_option (map_sum id fst)
     (replay_root_bt 2 chain_children (build_tree chain_indexed) ''A'')
     = Some (Inr (chain_events [(''model'', JStr ''gpt-4o'')]))
   \<and> attached (chain_events [(''model'', JStr ''gpt-4o'')])
       = [(''A'', [(''model'', JStr ''gpt-4o'')])]
   \<and> index_bt False chain_rows = Inr (chain_indexed, chain_children, [''A''])
   \<and> distinct (map row_id chain_rows)
   \<and> parents_of (mk_row ''B'' ''b'' (Parents [''a''])) = [''a'']
   \<and> (\<exists>evs tr'. replay_bt 2 args_two chain_children [''A''] (build_tree chain_indexed)
                    = Some (Inr (evs, tr'))
                \<and> tags_roots_only [''A''] evs
                \<and> tr' ''B'' = Some (mk_row ''B'' ''b'' (Parents [''a''])))
   \<and> replay_root_ls 2 chain_children (build_tree chain_indexed) ''A''
       = Some (Inr (chain_events []))
   \<and> attached (chain_events []) = [(''A'', [])]"
proof -
  let ?tr = "build_tree chain_indexed"
  let ?md = "[(''model'', JStr ''gpt-4o'')]"
  let ?B = "mk_row ''B'' ''b'' (Parents [''a''])"
  note t = model_tag_on_braintrust_roots
  from events_of_result [OF chain_replay_bt] obtain tr1 where
    bt: "replay_root_bt 2 chain_children ?tr ''A'' = Some (Inr (chain_events ?md, tr1))"
    by (rule exE)
  have A: "?tr ''A'' = Some (mk_row ''A'' ''a'' Absent)" by (rule chain_tree_simps)
  from t [where fuel = 2 and ch = chain_children and tr = ?tr and root = "''A''"
             and evs = "chain_events ?md" and tr' = tr1] bt A
  have w1: "attached (chain_events ?md) = [(''A'', ?md)]"
    by (auto simp: mk_row_def DEFAULT_MODEL_def)
  have d: "distinct (map row_id chain_rows)" by (simp add: chain_rows_def mk_row_def)
  have B: "?B \<in> set chain_rows" by (simp add: chain_rows_def)
  have p: "parents_of ?B = [''a'']" by (simp add: parents_of_def mk_row_def)
  have "map_option (map_sum id fst) (replay_bt 2 args_two chain_children [''A''] ?tr)
      = Some (Inr (chain_events ?md @ [IterationDone 1] @ chain_events ?md
                   @ [IterationDone 2] @ [Flush]))"
    by (simp add: replay_bt_def args_two_def replay_root_bt_def chain_tree_simps
                  chain_children_simps mk_row_def chain_events_def ROOT_SPAN_NAME_def
                  DEFAULT_MODEL_def numeral_2_eq_2 Let_def batch_flush_def flush_due_def)
  from events_of_result [OF this] obtain tr2 where
    run: "replay_bt 2 args_two chain_children [''A''] ?tr
      = Some (Inr (chain_events ?md @ [IterationDone 1] @ chain_events ?md
                   @ [IterationDone 2] @ [Flush], tr2))"
    by (rule exE)
  note t2 = t [where fuel = 2 and ch = chain_children and tr = ?tr and a = args_two
      and roots = "[''A'']" and tr' = tr2 and rows = chain_rows and rows' = chain_indexed
      and r = ?B
      and evs = "chain_events ?md @ [IterationDone 1] @ chain_events ?md
                 @ [IterationDone 2] @ [Flush]"]
  from t2 run
  have w2: "tags_roots_only [''A'']
      (chain_events ?md @ [IterationDone 1] @ chain_events ?md @ [IterationDone 2] @ [Flush])"
    by blast
  have w3: "tr2 (row_id ?B) = Some ?B"
    by (rule t2 [THEN conjunct2, THEN conjunct2, THEN conjunct1, THEN mp])
       (intro conjI chain_index d B run, simp add: p)
  then have w3': "tr2 ''B'' = Some ?B" by (simp add: mk_row_def)
  from t [where fuel = 2 and ch = chain_children and tr = ?tr and root = "''A''"
             and evs = "chain_events []"] chain_replay_ls A
  have w4: "attached (chain_events []) = [(''A'', [])]"
    by (auto simp: mk_row_def)
  from run w2 w3' have "\<exists>evs tr'. replay_bt 2 args_two chain_children [''A''] ?tr
                    = Some (Inr (evs, tr'))
                \<and> tags_roots_only [''A''] evs \<and> tr' ''B'' = Some ?B"
    by blast
  with chain_replay_bt w1 chain_index d p chain_replay_ls w4 show ?thesis by simp
qed

section \<open>Runs whose replay raises\<close>

text \<open>
  A run that raises during the replay has sent the events before the exception. When a child
  has no name, \<^verbatim>\<open>load_braintrust.py\<close> has opened the root, attached its payload and, leaving
  the \<^verbatim>\<open>with\<close> block, closed it; \<^verbatim>\<open>load_langsmith.py\<close> has created the root run and never ends
  it. When a root has no metadata, \<^verbatim>\<open>load_braintrust.py\<close> has opened and closed the root span
  around the failing assignment; \<^verbatim>\<open>load_langsmith.py\<close> fails before the root run exists.
\<close>

lemma raising_replay_keeps_events:
  "main_bt 2 env_nameless args_unlimited
     = Some ([LoadDotenv, PathExists, Login, ReadTraceFile, InitSink,
              Emit (OpenRoot ''A'' ''Chat Pipeline''),
              Emit (Attach ''A'' JNull JNull (Some [(''model'', JStr ''gpt-4o'')])),
              Emit (CloseRoot ''A'')], Raised KeyError)"
  "main_ls 2 env_nameless args_unlimited
     = Some ([LoadDotenv, PathExists, ReadTraceFile, InitSink,
              Emit (OpenRoot ''A'' ''Chat Pipeline''),
              Emit (Attach ''A'' JNull JNull (Some []))], Raised KeyError)"
  "main_bt 2 env_no_metadata args_unlimited
     = Some ([LoadDotenv, PathExists, Login, ReadTraceFile, InitSink,
              Emit (OpenRoot ''M'' ''Chat Pipeline''), Emit (CloseRoot ''M'')], Raised KeyError)"
  "main_ls 2 env_no_metadata args_unlimited
     = Some ([LoadDotenv, PathExists, ReadTraceFile, InitSink], Raised KeyError)"
proof -
  let ?A = "mk_row ''A'' ''a'' Null"
  let ?Q = "(mk_row ''Q'' ''q'' (Parents [''a'']))\<lparr>span_name := None\<rparr>"
  let ?M = "(mk_row ''M'' ''m'' Null)\<lparr>metadata := None\<rparr>"
  have out: "loads_example ''A'' = Returns (Record ?A)" "loads_example ''Q'' = Returns (Record ?Q)"
    "loads_example ''M'' = Returns (Record ?M)"
    by (simp_all add: loads_example_def huge_line_neq)
  have rows: "load_rows (json_loads env_nameless) (limit args_unlimited) (trace_file env_nameless)
      = Inr (map Record [?A, ?Q], [])"
    "load_rows (json_loads env_no_metadata) (limit args_unlimited) (trace_file env_no_metadata)
      = Inr (map Record [?M], [])"
    by (simp_all add: env_nameless_def env_no_metadata_def args_unlimited_def load_rows_def
                      limit_reached_def out)
  have st: "startup env_nameless args_unlimited = ([LoadDotenv, PathExists], None)"
    "startup env_no_metadata args_unlimited = ([LoadDotenv, PathExists], None)"
    by (simp_all add: startup_def env_nameless_def env_no_metadata_def args_unlimited_def
                      validate_def)
  have lg: "login_error env_nameless = None" "login_error env_no_metadata = None"
    by (simp_all add: env_nameless_def env_no_metadata_def)
  have fl: "flatten args_unlimited = False" by (simp add: args_unlimited_def)
  have ix: "index_bt False [?A, ?Q]
      = Inr ([mk_row ''A'' ''a'' Absent, ?Q], [''a'' \<mapsto> [''Q'']], [''A''])"
    "index_bt False [?M] = Inr ([(mk_row ''M'' ''m'' Absent)\<lparr>metadata := None\<rparr>], Map.empty, [''M''])"
    by (simp_all add: index_bt_def index_row_def make_root_bt_def mk_row_def add_child_def
                      children_get_def)
  have bt: "replay_bt 2 args_unlimited [''a'' \<mapsto> [''Q''] ] [''A'']
              (build_tree [mk_row ''A'' ''a'' Absent, ?Q])
      = Some (Inl (KeyError, [OpenRoot ''A'' ''Chat Pipeline'',
                              Attach ''A'' JNull JNull (Some [(''model'', JStr ''gpt-4o'')]),
                              CloseRoot ''A'']))"
    "replay_bt 2 args_unlimited Map.empty [''M'']
              (build_tree [(mk_row ''M'' ''m'' Absent)\<lparr>metadata := None\<rparr>])
      = Some (Inl (KeyError, [OpenRoot ''M'' ''Chat Pipeline'', CloseRoot ''M'']))"
    by (simp_all add: replay_bt_def args_unlimited_def replay_root_bt_def build_tree_def
                      mk_row_def children_get_def ROOT_SPAN_NAME_def DEFAULT_MODEL_def Let_def
                      numeral_2_eq_2)
  have ls: "replay_ls 2 args_unlimited [''a'' \<mapsto> [''Q''] ]
              (build_tree [mk_row ''A'' ''a'' Absent, ?Q]) [''A'']
      = Some (Inl (KeyError, [OpenRoot ''A'' ''Chat Pipeline'',
                              Attach ''A'' JNull JNull (Some [])]))"
    "replay_ls 2 args_unlimited Map.empty
              (build_tree [(mk_row ''M'' ''m'' Absent)\<lparr>metadata := None\<rparr>]) [''M'']
      = Some (Inl (KeyError, []))"
    by (simp_all add: replay_ls_def args_unlimited_def replay_root_ls_def build_tree_def
                      mk_row_def children_get_def ROOT_RUN_NAME_def numeral_2_eq_2)
  show "main_bt 2 env_nameless args_unlimited
     = Some ([LoadDotenv, PathExists, Login, ReadTraceFile, InitSink,
              Emit (OpenRoot ''A'' ''Chat Pipeline''),
              Emit (Attach ''A'' JNull JNull (Some [(''model'', JStr ''gpt-4o'')])),
              Emit (CloseRoot ''A'')], Raised KeyError)"
    by (simp add: main_bt_def st lg rows tree_rows_map_Record fl ix bt)
  show "main_ls 2 env_nameless args_unlimited
     = Some ([LoadDotenv, PathExists, ReadTraceFile, InitSink,
              Emit (OpenRoot ''A'' ''Chat Pipeline''),
              Emit (Attach ''A'' JNull JNull (Some []))], Raised KeyError)"
    by (simp add: main_ls_def st lg rows tree_rows_map_Record fl ix
                  index_hierarchy_same [symmetric] ls)
  show "main_bt 2 env_no_metadata args_unlimited
     = Some ([LoadDotenv, PathExists, Login, ReadTraceFile, InitSink,
              Emit (OpenRoot ''M'' ''Chat Pipeline''), Emit (CloseRoot ''M'')], Raised KeyError)"
    by (simp add: main_bt_def st lg rows tree_rows_map_Record fl ix bt)
  show "main_ls 2 env_no_metadata args_unlimited
     = Some ([LoadDotenv, PathExists, ReadTraceFile, InitSink], Raised KeyError)"
    by (simp add: main_ls_def st lg rows tree_rows_map_Record fl ix
                  index_hierarchy_same [symmetric] ls)
qed

end
